theory Spec2Isabelle
  imports Complex_Main "HOL-Library.Sublist"
begin

section \<open>Python values\<close>

text \<open>
  A Python \<^verbatim>\<open>str\<close> is a sequence of Unicode code points, and \<^verbatim>\<open>len\<close> counts code points.
  It is modelled as a list of natural numbers; \<open>str\<close> turns an ASCII literal into that form.
  Floats are idealised as exact reals.
\<close>

type_synonym pystr = "nat list"

definition str :: "string \<Rightarrow> pystr" where
  "str s = map of_char s"

text \<open>The values that occur in metadata and payload dictionaries.\<close>

datatype pyval = PStr pystr | PList "pystr list" | PInt int

datatype error = TypeError | ZeroDivisionError | KeyError | IndexError

text \<open>\<^verbatim>\<open>sep.join(xs)\<close>\<close>

fun join :: "pystr \<Rightarrow> pystr list \<Rightarrow> pystr" where
  "join sep [] = []"
| "join sep [x] = x"
| "join sep (x # y # ys) = x @ sep @ join sep (y # ys)"

text \<open>\<^verbatim>\<open>xs[:n]\<close>: a negative bound counts from the end.\<close>

definition py_take :: "int \<Rightarrow> 'a list \<Rightarrow> 'a list" where
  "py_take n xs = (if 0 \<le> n then take (nat n) xs else take (nat (int (length xs) + n)) xs)"

text \<open>\<^verbatim>\<open>a + b\<close> on the values above.\<close>

fun py_add :: "pyval \<Rightarrow> pyval \<Rightarrow> error + pyval" where
  "py_add (PList a) (PList b) = Inr (PList (a @ b))"
| "py_add (PStr a) (PStr b) = Inr (PStr (a @ b))"
| "py_add (PInt a) (PInt b) = Inr (PInt (a + b))"
| "py_add _ _ = Inl TypeError"

text \<open>\<^verbatim>\<open>not v\<close>\<close>

fun py_not :: "pyval \<Rightarrow> bool" where
  "py_not (PList xs) = (xs = [])"
| "py_not (PStr s) = (s = [])"
| "py_not (PInt n) = (n = 0)"

text \<open>\<^verbatim>\<open>" ".join(v)\<close>: a string is iterated character by character, an int is not iterable.\<close>

fun py_join_space :: "pyval \<Rightarrow> error + pystr" where
  "py_join_space (PList xs) = Inr (join (str '' '') xs)"
| "py_join_space (PStr s) = Inr (join (str '' '') (map (\<lambda>c. [c]) s))"
| "py_join_space (PInt n) = Inl TypeError"


section \<open>Parsed documents (parsers/base.py)\<close>

datatype ContentType = TEXT | TABLE | CODE_BLOCK | LIST | HEADING

text \<open>The \<^verbatim>\<open>.value\<close> of the string enum.\<close>

fun content_type_value :: "ContentType \<Rightarrow> pystr" where
  "content_type_value TEXT = str ''text''"
| "content_type_value TABLE = str ''table''"
| "content_type_value CODE_BLOCK = str ''code_block''"
| "content_type_value LIST = str ''list''"
| "content_type_value HEADING = str ''heading''"

record ParsedSection =
  content :: pystr
  content_type :: ContentType
  heading_level :: "int option"
  heading_text :: "pystr option"
  section_hierarchy :: "pystr list"
  metadata :: "pystr \<rightharpoonup> pyval"
  page_number :: "int option"
  code_language :: "pystr option"


section \<open>Chunks (chunkers/base.py)\<close>

record Chunk =
  c_chunk_id :: pystr
  c_document_id :: pystr
  c_content :: pystr
  c_content_type :: ContentType
  c_section_hierarchy :: "pystr list"
  c_metadata :: "pystr \<rightharpoonup> pyval"
  c_embedding :: "real list option"

text \<open>
  \<^verbatim>\<open>Chunk.to_payload\<close>: a dict display evaluates its items left to right, a later key
  replacing an earlier one; \<^verbatim>\<open>**self.metadata\<close> comes last.
\<close>

definition to_payload :: "Chunk \<Rightarrow> (pystr \<rightharpoonup> pyval)" where
  "to_payload c =
     (Map.empty
        (str ''chunk_id'' \<mapsto> PStr (c_chunk_id c),
         str ''document_id'' \<mapsto> PStr (c_document_id c),
         str ''content'' \<mapsto> PStr (c_content c),
         str ''content_type'' \<mapsto> PStr (content_type_value (c_content_type c)),
         str ''section_hierarchy'' \<mapsto> PList (c_section_hierarchy c)))
     ++ c_metadata c"


section \<open>Retrieval results (retrievers/base.py)\<close>

record RetrievalResult =
  r_chunk_id :: pystr
  r_document_id :: pystr
  r_content :: pystr
  r_score :: real
  r_metadata :: "pystr \<rightharpoonup> pyval"
  r_source :: pystr

text \<open>
  One hit of \<^verbatim>\<open>VectorStore.search\<close>: \<^verbatim>\<open>{"id", "score", "payload"}\<close>. The payload dict is
  kept as its three string entries, each of which may be absent, and the map of all its
  other entries.
\<close>

record payload =
  p_chunk_id :: "pystr option"
  p_document_id :: "pystr option"
  p_content :: "pystr option"
  p_rest :: "pystr \<rightharpoonup> pyval"

record hit =
  h_score :: real
  h_payload :: payload

type_synonym filters = "(pystr \<rightharpoonup> pyval) option"

text \<open>\<^verbatim>\<open>d.get(k, default)\<close>\<close>

definition get_default :: "'a option \<Rightarrow> 'a \<Rightarrow> 'a" where
  "get_default v d = (case v of None \<Rightarrow> d | Some x \<Rightarrow> x)"

text \<open>
  \<^verbatim>\<open>{k: v for k, v in r["payload"].items() if k not in ("chunk_id", "document_id", "content")}\<close>
\<close>

definition payload_metadata :: "payload \<Rightarrow> (pystr \<rightharpoonup> pyval)" where
  "payload_metadata p =
     p_rest p |` (- {str ''chunk_id'', str ''document_id'', str ''content''})"


section \<open>Cross-reference retriever (retrievers/cross_ref_retriever.py)\<close>

text \<open>
  The retriever object: its two collaborators, taken as functions that return, and
  \<^verbatim>\<open>max_cross_refs\<close>.
\<close>

record 'v CrossRefRetriever =
  search :: "'v \<Rightarrow> int \<Rightarrow> filters \<Rightarrow> hit list"
  embed_query :: "pystr \<Rightarrow> 'v"
  max_cross_refs :: int

definition primary_retrieve ::
  "'v CrossRefRetriever \<Rightarrow> pystr \<Rightarrow> int \<Rightarrow> filters \<Rightarrow> RetrievalResult list" where
  "primary_retrieve self query top_k flt =
     map (\<lambda>r. \<lparr> r_chunk_id = get_default (p_chunk_id (h_payload r)) [],
                r_document_id = get_default (p_document_id (h_payload r)) [],
                r_content = get_default (p_content (h_payload r)) [],
                r_score = h_score r,
                r_metadata = payload_metadata (h_payload r),
                r_source = str ''primary'' \<rparr>)
       (search self (embed_query self query) top_k flt)"

text \<open>The loop body of \<^verbatim>\<open>_search_related\<close>: a hit of the excluded document is skipped.\<close>

fun search_related_loop :: "pystr \<Rightarrow> hit list \<Rightarrow> RetrievalResult list" where
  "search_related_loop exclude_doc_id [] = []"
| "search_related_loop exclude_doc_id (r # rs) =
     (if p_document_id (h_payload r) = Some exclude_doc_id
      then search_related_loop exclude_doc_id rs
      else \<lparr> r_chunk_id = get_default (p_chunk_id (h_payload r)) [],
             r_document_id = get_default (p_document_id (h_payload r)) [],
             r_content = get_default (p_content (h_payload r)) [],
             r_score = h_score r * 0.8,
             r_metadata = payload_metadata (h_payload r),
             r_source = str ''cross_reference'' \<rparr>
           # search_related_loop exclude_doc_id rs)"

definition search_related ::
  "'v CrossRefRetriever \<Rightarrow> pyval \<Rightarrow> pystr \<Rightarrow> pystr \<Rightarrow> error + RetrievalResult list" where
  "search_related self entities doc_type exclude_doc_id =
     (if py_not entities then Inr []
      else case py_join_space entities of
             Inl e \<Rightarrow> Inl e
           | Inr query \<Rightarrow>
               Inr (search_related_loop exclude_doc_id
                      (search self (embed_query self query) (max_cross_refs self + 1)
                         (Some [str ''doc_types'' \<mapsto> PList [doc_type]]))))"

text \<open>The secondary results one primary hit contributes to \<^verbatim>\<open>cross_refs\<close>.\<close>

definition cross_refs_of ::
  "'v CrossRefRetriever \<Rightarrow> RetrievalResult \<Rightarrow> error + RetrievalResult list" where
  "cross_refs_of self result =
     (let doc_type = get_default (r_metadata result (str ''doc_type'')) (PStr []);
          entity_names = get_default (r_metadata result (str ''entity_names'')) (PList []);
          table_names = get_default (r_metadata result (str ''table_names'')) (PList [])
      in if doc_type = PStr (str ''api_spec'') then
           (case py_add entity_names table_names of
              Inl e \<Rightarrow> Inl e
            | Inr entities \<Rightarrow>
                (case search_related self entities (str ''table_schema'') (r_document_id result) of
                   Inl e \<Rightarrow> Inl e
                 | Inr related \<Rightarrow> Inr (py_take (max_cross_refs self) related)))
         else if doc_type = PStr (str ''table_schema'') then
           (case py_add table_names entity_names of
              Inl e \<Rightarrow> Inl e
            | Inr entities \<Rightarrow>
                (case search_related self entities (str ''api_spec'') (r_document_id result) of
                   Inl e \<Rightarrow> Inl e
                 | Inr related \<Rightarrow> Inr (py_take (max_cross_refs self) related)))
         else Inr [])"

fun find_cross_references ::
  "'v CrossRefRetriever \<Rightarrow> RetrievalResult list \<Rightarrow> error + RetrievalResult list" where
  "find_cross_references self [] = Inr []"
| "find_cross_references self (result # rest) =
     (case cross_refs_of self result of
        Inl e \<Rightarrow> Inl e
      | Inr related \<Rightarrow>
          (case find_cross_references self rest of
             Inl e \<Rightarrow> Inl e
           | Inr others \<Rightarrow> Inr (related @ others)))"

text \<open>The deduplication loop of \<^verbatim>\<open>retrieve\<close>, with its \<^verbatim>\<open>seen\<close> set.\<close>

fun dedupe :: "pystr set \<Rightarrow> RetrievalResult list \<Rightarrow> RetrievalResult list" where
  "dedupe seen [] = []"
| "dedupe seen (result # rest) =
     (if r_chunk_id result \<notin> seen
      then result # dedupe (insert (r_chunk_id result) seen) rest
      else dedupe seen rest)"

definition retrieve ::
  "'v CrossRefRetriever \<Rightarrow> pystr \<Rightarrow> int \<Rightarrow> filters \<Rightarrow> error + RetrievalResult list" where
  "retrieve self query top_k flt =
     (let primary_results = primary_retrieve self query top_k flt
      in case find_cross_references self primary_results of
           Inl e \<Rightarrow> Inl e
         | Inr cross_refs \<Rightarrow> Inr (dedupe {} (primary_results @ cross_refs)))"



section \<open>Concrete retrievers used to evaluate the retrieval code\<close>

definition mk_hit :: "string \<Rightarrow> string \<Rightarrow> string \<Rightarrow> string \<Rightarrow> hit" where
  "mk_hit cid did ty nm =
     \<lparr> h_score = 1,
       h_payload = \<lparr> p_chunk_id = Some (str cid), p_document_id = Some (str did),
                     p_content = Some (str ''text''),
                     p_rest = [str ''doc_type'' \<mapsto> PStr (str ty),
                               str ''entity_names'' \<mapsto> PList [str nm]] \<rparr> \<rparr>"

definition demo_retriever :: "pystr CrossRefRetriever" where
  "demo_retriever =
     \<lparr> search = (\<lambda>v k f. case f of
                    None \<Rightarrow> [mk_hit ''c1'' ''d1'' ''api_spec'' ''User'',
                             mk_hit ''c2'' ''d2'' ''table_schema'' ''users'']
                  | Some m \<Rightarrow>
                      if m (str ''doc_types'') = Some (PList [str ''table_schema''])
                      then [mk_hit ''c2'' ''d2'' ''table_schema'' ''users'',
                            mk_hit ''c3'' ''d3'' ''table_schema'' ''orders'']
                      else [mk_hit ''c1'' ''d1'' ''api_spec'' ''User'',
                            mk_hit ''c4'' ''d2'' ''api_spec'' ''Order'']),
       embed_query = (\<lambda>q. q),
       max_cross_refs = 3 \<rparr>"

section \<open>Hybrid retriever (retrievers/hybrid_retriever.py)\<close>

text \<open>
  A \<^verbatim>\<open>dict\<close> whose iteration order matters is a list of key-value pairs with distinct keys,
  in insertion order: assigning to a present key keeps its place, a new key goes last.
\<close>

fun dict_set :: "pystr \<Rightarrow> 'a \<Rightarrow> (pystr \<times> 'a) list \<Rightarrow> (pystr \<times> 'a) list" where
  "dict_set k v [] = [(k, v)]"
| "dict_set k v (kv # d) = (if fst kv = k then (k, v) # d else kv # dict_set k v d)"

record 'v HybridRetriever =
  vector_store_search :: "'v \<Rightarrow> int \<Rightarrow> filters \<Rightarrow> hit list"
  embedding_embed_query :: "pystr \<Rightarrow> 'v"
  dense_weight :: real
  sparse_weight :: real
  rrf_k :: int

definition dense_retrieve ::
  "'v HybridRetriever \<Rightarrow> pystr \<Rightarrow> int \<Rightarrow> filters \<Rightarrow> RetrievalResult list" where
  "dense_retrieve self query top_k flt =
     map (\<lambda>r. \<lparr> r_chunk_id = get_default (p_chunk_id (h_payload r)) [],
                r_document_id = get_default (p_document_id (h_payload r)) [],
                r_content = get_default (p_content (h_payload r)) [],
                r_score = h_score r,
                r_metadata = payload_metadata (h_payload r),
                r_source = str ''dense'' \<rparr>)
       (vector_store_search self (embedding_embed_query self query) top_k flt)"

definition sparse_retrieve ::
  "'v HybridRetriever \<Rightarrow> pystr \<Rightarrow> int \<Rightarrow> filters \<Rightarrow> RetrievalResult list" where
  "sparse_retrieve self query top_k flt = []"

text \<open>
  The two \<^verbatim>\<open>for rank, result in enumerate(...)\<close> loops of \<^verbatim>\<open>_reciprocal_rank_fusion\<close>, on
  the pair \<^verbatim>\<open>(scores, result_map)\<close>. The division raises when \<^verbatim>\<open>rrf_k + rank + 1\<close> is zero.
\<close>

fun process_dense ::
  "'v HybridRetriever \<Rightarrow> nat \<Rightarrow> RetrievalResult list \<Rightarrow>
   (pystr \<times> real) list \<times> (pystr \<times> RetrievalResult) list \<Rightarrow>
   error + (pystr \<times> real) list \<times> (pystr \<times> RetrievalResult) list" where
  "process_dense self rank [] st = Inr st"
| "process_dense self rank (result # rest) st =
     (let chunk_id = r_chunk_id result in
      if rrf_k self + int rank + 1 = 0 then Inl ZeroDivisionError
      else
        let rrf_score = dense_weight self / real_of_int (rrf_k self + int rank + 1)
        in process_dense self (Suc rank) rest
             (dict_set chunk_id (get_default (map_of (fst st) chunk_id) 0 + rrf_score) (fst st),
              dict_set chunk_id result (snd st)))"

fun process_sparse ::
  "'v HybridRetriever \<Rightarrow> nat \<Rightarrow> RetrievalResult list \<Rightarrow>
   (pystr \<times> real) list \<times> (pystr \<times> RetrievalResult) list \<Rightarrow>
   error + (pystr \<times> real) list \<times> (pystr \<times> RetrievalResult) list" where
  "process_sparse self rank [] st = Inr st"
| "process_sparse self rank (result # rest) st =
     (let chunk_id = r_chunk_id result in
      if rrf_k self + int rank + 1 = 0 then Inl ZeroDivisionError
      else
        let rrf_score = sparse_weight self / real_of_int (rrf_k self + int rank + 1)
        in process_sparse self (Suc rank) rest
             (dict_set chunk_id (get_default (map_of (fst st) chunk_id) 0 + rrf_score) (fst st),
              if map_of (snd st) chunk_id = None then dict_set chunk_id result (snd st)
              else snd st))"

text \<open>
  \<^verbatim>\<open>sorted(scores.keys(), key=lambda x: scores[x], reverse=True)\<close> is stable: keys of equal
  score keep their insertion order. Each key is sorted together with its score.
\<close>

definition sorted_ids :: "(pystr \<times> real) list \<Rightarrow> (pystr \<times> real) list" where
  "sorted_ids scores = sort_key (\<lambda>kv. - snd kv) scores"

text \<open>The final loop; \<^verbatim>\<open>result_map[chunk_id]\<close> raises on a missing key.\<close>

fun build_combined ::
  "(pystr \<times> RetrievalResult) list \<Rightarrow> (pystr \<times> real) list \<Rightarrow> error + RetrievalResult list" where
  "build_combined result_map [] = Inr []"
| "build_combined result_map (kv # rest) =
     (case map_of result_map (fst kv) of
        None \<Rightarrow> Inl KeyError
      | Some result \<Rightarrow>
          (case build_combined result_map rest of
             Inl e \<Rightarrow> Inl e
           | Inr combined \<Rightarrow>
               Inr (\<lparr> r_chunk_id = r_chunk_id result,
                      r_document_id = r_document_id result,
                      r_content = r_content result,
                      r_score = snd kv,
                      r_metadata = r_metadata result,
                      r_source = str ''hybrid'' \<rparr> # combined)))"

definition reciprocal_rank_fusion ::
  "'v HybridRetriever \<Rightarrow> RetrievalResult list \<Rightarrow> RetrievalResult list \<Rightarrow>
   error + RetrievalResult list" where
  "reciprocal_rank_fusion self dense_results sparse_results =
     (case process_dense self 0 dense_results ([], []) of
        Inl e \<Rightarrow> Inl e
      | Inr st \<Rightarrow>
          (case process_sparse self 0 sparse_results st of
             Inl e \<Rightarrow> Inl e
           | Inr st' \<Rightarrow> build_combined (snd st') (sorted_ids (fst st'))))"

definition hybrid_retrieve ::
  "'v HybridRetriever \<Rightarrow> pystr \<Rightarrow> int \<Rightarrow> filters \<Rightarrow> error + RetrievalResult list" where
  "hybrid_retrieve self query top_k flt =
     (let dense_results = dense_retrieve self query (top_k * 2) flt;
          sparse_results = sparse_retrieve self query (top_k * 2) flt
      in case reciprocal_rank_fusion self dense_results sparse_results of
           Inl e \<Rightarrow> Inl e
         | Inr combined \<Rightarrow> Inr (py_take top_k combined))"

text \<open>
  The score the specification gives a chunk from one list: the weight divided by
  \<^verbatim>\<open>rrf_k + rank + 1\<close> at the chunk's 0-based position, nothing when the chunk is absent.
\<close>

fun rank_in_list :: "RetrievalResult list \<Rightarrow> pystr \<Rightarrow> nat option" where
  "rank_in_list [] c = None"
| "rank_in_list (r # rs) c =
     (if r_chunk_id r = c then Some 0 else map_option Suc (rank_in_list rs c))"

definition spec_contribution :: "real \<Rightarrow> int \<Rightarrow> RetrievalResult list \<Rightarrow> pystr \<Rightarrow> real" where
  "spec_contribution w k xs c =
     (case rank_in_list xs c of None \<Rightarrow> 0 | Some rank \<Rightarrow> w / real_of_int (k + int rank + 1))"

text \<open>The same summed over every position at which the chunk occurs, ranks counted from \<open>n\<close>.\<close>

fun rrf_sum :: "real \<Rightarrow> int \<Rightarrow> nat \<Rightarrow> RetrievalResult list \<Rightarrow> pystr \<Rightarrow> real" where
  "rrf_sum w k n [] c = 0"
| "rrf_sum w k n (r # rs) c =
     (if r_chunk_id r = c then w / real_of_int (k + int n + 1) else 0) + rrf_sum w k (Suc n) rs c"

definition plain_result :: "string \<Rightarrow> RetrievalResult" where
  "plain_result cid =
     \<lparr> r_chunk_id = str cid, r_document_id = str ''d'', r_content = str ''text'',
       r_score = 1, r_metadata = Map.empty, r_source = str ''dense'' \<rparr>"

definition default_hybrid :: "pystr HybridRetriever" where
  "default_hybrid =
     \<lparr> vector_store_search = (\<lambda>v k f. []), embedding_embed_query = (\<lambda>q. q),
       dense_weight = 0.7, sparse_weight = 0.3, rrf_k = 60 \<rparr>"

section \<open>Strings: whitespace, splitting, searching\<close>

text \<open>
  The code points for which \<^verbatim>\<open>str.isspace\<close> holds: what \<^verbatim>\<open>strip()\<close> and \<^verbatim>\<open>split()\<close> remove and
  what \<^verbatim>\<open>\s\<close> matches in a \<^verbatim>\<open>str\<close> pattern.
\<close>

definition is_space :: "nat \<Rightarrow> bool" where
  "is_space c \<longleftrightarrow>
     c \<in> {9, 10, 11, 12, 13, 28, 29, 30, 31, 32, 133, 160, 5760,
          8232, 8233, 8239, 8287, 12288}
     \<or> (8192 \<le> c \<and> c \<le> 8202)"

definition strip :: "pystr \<Rightarrow> pystr" where
  "strip s = rev (dropWhile is_space (rev (dropWhile is_space s)))"

text \<open>\<^verbatim>\<open>s.split(sep)\<close> for a one-character separator: never empty, \<^verbatim>\<open>"".split("\n") == [""]\<close>.\<close>

fun split_char :: "nat \<Rightarrow> pystr \<Rightarrow> pystr list" where
  "split_char sep [] = [[]]"
| "split_char sep (c # cs) =
     (if c = sep then [] # split_char sep cs
      else (case split_char sep cs of w # ws \<Rightarrow> (c # w) # ws | [] \<Rightarrow> [[c]]))"

text \<open>
  The first occurrence of a non-empty \<open>sub\<close> in \<open>s\<close>: the text before it and the text
  after it. \<^verbatim>\<open>sub in s\<close> is \<open>split_first sub s \<noteq> None\<close>.
\<close>

fun split_first :: "pystr \<Rightarrow> pystr \<Rightarrow> (pystr \<times> pystr) option" where
  "split_first sub [] = (if sub = [] then Some ([], []) else None)"
| "split_first sub (c # cs) =
     (if prefix sub (c # cs) then Some ([], drop (length sub) (c # cs))
      else map_option (\<lambda>(b, a). (c # b, a)) (split_first sub cs))"

text \<open>\<^verbatim>\<open>str(n)\<close> for a natural number.\<close>

fun decimal :: "nat \<Rightarrow> pystr" where
  "decimal n = (if n < 10 then [48 + n] else decimal (n div 10) @ [48 + n mod 10])"

declare decimal.simps [simp del]

text \<open>The truth value of an \<^verbatim>\<open>Optional[str]\<close>.\<close>

fun truthy :: "pystr option \<Rightarrow> bool" where
  "truthy None = False"
| "truthy (Some s) = (s \<noteq> [])"


section \<open>Markdown parser (parsers/markdown_parser.py)\<close>

text \<open>
  \<^verbatim>\<open>HEADING_PATTERN.match(line)\<close> for \<^verbatim>\<open>^(#{1,6})\s+(.+)$\<close> on a line without a newline:
  one to six \<^verbatim>\<open>#\<close>, then whitespace, then at least one more character. The result is
  the length of group 1 and group 2. The greedy \<^verbatim>\<open>\s+\<close> takes the whole run of
  whitespace; when nothing follows the run, it gives its last character back to group 2,
  which needs a run of two.
\<close>

definition heading_match :: "pystr \<Rightarrow> (nat \<times> pystr) option" where
  "heading_match line =
     (let hashes = takeWhile (\<lambda>c. c = 35) line;
          rest = dropWhile (\<lambda>c. c = 35) line;
          spaces = takeWhile is_space rest;
          text = dropWhile is_space rest
      in if 1 \<le> length hashes \<and> length hashes \<le> 6 \<and> spaces \<noteq> [] then
           (if text \<noteq> [] then Some (length hashes, text)
            else if 2 \<le> length spaces then Some (length hashes, [last spaces])
            else None)
         else None)"

text \<open>
  \<^verbatim>\<open>_detect_content_type\<close>; the two searches \<^verbatim>\<open>TABLE_PATTERN.search\<close> and
  \<^verbatim>\<open>LIST_PATTERN.search\<close> are parameters.
\<close>

definition detect_content_type ::
  "(pystr \<Rightarrow> bool) \<Rightarrow> (pystr \<Rightarrow> bool) \<Rightarrow> pystr \<Rightarrow> ContentType" where
  "detect_content_type table_search list_search text =
     (if table_search text then TABLE else if list_search text then LIST else TEXT)"

text \<open>The placeholder \<^verbatim>\<open>f"__CODE_BLOCK_{code_idx}__"\<close>.\<close>

definition placeholder :: "nat \<Rightarrow> pystr" where
  "placeholder code_idx = str ''__CODE_BLOCK_'' @ decimal code_idx @ str ''__''"

text \<open>
  The loop of \<^verbatim>\<open>_create_sections_from_content\<close> over \<^verbatim>\<open>code_blocks.items()\<close>, the blocks
  \<^verbatim>\<open>(lang, code)\<close> in insertion order, numbered from \<open>code_idx\<close>. It returns the sections and
  what is left of \<^verbatim>\<open>content\<close>. \<^verbatim>\<open>parts[1]\<close> ends at the next occurrence of the placeholder.
\<close>

fun create_sections_loop ::
  "(pystr \<Rightarrow> ContentType) \<Rightarrow> pystr option \<Rightarrow> int option \<Rightarrow> pystr list \<Rightarrow>
   nat \<Rightarrow> (pystr \<times> pystr) list \<Rightarrow> pystr \<Rightarrow> ParsedSection list \<times> pystr" where
  "create_sections_loop detect heading level hierarchy code_idx [] text = ([], text)"
| "create_sections_loop detect heading level hierarchy code_idx (block # blocks) text =
     (case split_first (placeholder code_idx) text of
        None \<Rightarrow> create_sections_loop detect heading level hierarchy (Suc code_idx) blocks text
      | Some (part0, tail) \<Rightarrow>
          (let before_part = strip part0;
               after_part = strip (case split_first (placeholder code_idx) tail of
                                None \<Rightarrow> tail | Some (part1, _) \<Rightarrow> part1);
               found =
                 (if before_part \<noteq> [] then
                    [\<lparr> content = before_part, content_type = detect before_part,
                       heading_level = level, heading_text = heading,
                       section_hierarchy = hierarchy, metadata = Map.empty,
                       page_number = None, code_language = None \<rparr>]
                  else [])
                 @ [\<lparr> content = strip (snd block), content_type = CODE_BLOCK,
                       heading_level = level, heading_text = heading,
                       section_hierarchy = hierarchy, metadata = Map.empty,
                       page_number = None,
                       code_language = (if fst block \<noteq> [] then Some (fst block) else None) \<rparr>];
               later = create_sections_loop detect heading level hierarchy (Suc code_idx) blocks after_part
           in (found @ fst later, snd later)))"

definition create_sections_from_content ::
  "(pystr \<Rightarrow> ContentType) \<Rightarrow> pystr \<Rightarrow> pystr option \<Rightarrow> int option \<Rightarrow> pystr list \<Rightarrow>
   (pystr \<times> pystr) list \<Rightarrow> ParsedSection list" where
  "create_sections_from_content detect text heading level hierarchy code_blocks =
     (let looped = create_sections_loop detect heading level hierarchy 0 code_blocks text
      in fst looped
         @ (if strip (snd looped) \<noteq> [] then
              [\<lparr> content = snd looped, content_type = detect (snd looped),
                 heading_level = level, heading_text = heading,
                 section_hierarchy = hierarchy, metadata = Map.empty,
                 page_number = None, code_language = None \<rparr>]
            else []))"

text \<open>
  \<^verbatim>\<open>while len(current_hierarchy) >= level: current_hierarchy.pop()\<close>; \<^verbatim>\<open>pop\<close> raises on an
  empty list.
\<close>

fun pop_hierarchy :: "nat \<Rightarrow> pystr list \<Rightarrow> error + pystr list" where
  "pop_hierarchy level h =
     (if level \<le> length h then
        (if h = [] then Inl IndexError else pop_hierarchy level (butlast h))
      else Inr h)"

declare pop_hierarchy.simps [simp del]

text \<open>The state of the loop over the lines in \<^verbatim>\<open>_parse_content\<close>.\<close>

record parse_state =
  st_sections :: "ParsedSection list"
  st_current_hierarchy :: "pystr list"
  st_current_section_lines :: "pystr list"
  st_current_heading :: "pystr option"
  st_current_level :: "int option"

text \<open>The sections saved when a heading line is met.\<close>

definition save_previous ::
  "(pystr \<Rightarrow> ContentType) \<Rightarrow> (pystr \<times> pystr) list \<Rightarrow> parse_state \<Rightarrow> ParsedSection list" where
  "save_previous detect code_blocks st =
     (if st_current_section_lines st \<noteq> [] \<or> truthy (st_current_heading st) then
        (let section_content = strip (join [10] (st_current_section_lines st))
         in if section_content \<noteq> [] \<or> truthy (st_current_heading st) then
              create_sections_from_content detect section_content (st_current_heading st)
                (st_current_level st) (st_current_hierarchy st) code_blocks
            else [])
      else [])"

fun parse_lines ::
  "(pystr \<Rightarrow> ContentType) \<Rightarrow> (pystr \<times> pystr) list \<Rightarrow> parse_state \<Rightarrow> pystr list \<Rightarrow>
   error + parse_state" where
  "parse_lines detect code_blocks st [] = Inr st"
| "parse_lines detect code_blocks st (line # lines) =
     (case heading_match line of
        Some (level, group2) \<Rightarrow>
          (let saved = save_previous detect code_blocks st;
               heading_text = strip group2
           in case pop_hierarchy level (st_current_hierarchy st) of
                Inl e \<Rightarrow> Inl e
              | Inr popped \<Rightarrow>
                  parse_lines detect code_blocks
                    \<lparr> st_sections = st_sections st @ saved
                         @ [\<lparr> content = line, content_type = HEADING,
                               heading_level = Some (int level), heading_text = Some heading_text,
                               section_hierarchy = popped @ [heading_text], metadata = Map.empty,
                               page_number = None, code_language = None \<rparr>],
                      st_current_hierarchy = popped @ [heading_text],
                      st_current_section_lines = [],
                      st_current_heading = Some heading_text,
                      st_current_level = Some (int level) \<rparr>
                    lines)
      | None \<Rightarrow>
          parse_lines detect code_blocks
            (st\<lparr> st_current_section_lines := st_current_section_lines st @ [line] \<rparr>) lines)"

text \<open>
  \<^verbatim>\<open>_parse_content\<close> from the point where the code blocks have been replaced by their
  placeholders: the sections of the document, from \<^verbatim>\<open>content_no_code\<close> and \<^verbatim>\<open>code_blocks\<close>.
\<close>

definition parse_content ::
  "(pystr \<Rightarrow> ContentType) \<Rightarrow> (pystr \<times> pystr) list \<Rightarrow> pystr \<Rightarrow>
   error + ParsedSection list" where
  "parse_content detect code_blocks content_no_code =
     (case parse_lines detect code_blocks
             \<lparr> st_sections = [], st_current_hierarchy = [], st_current_section_lines = [],
               st_current_heading = None, st_current_level = None \<rparr>
             (split_char 10 content_no_code) of
        Inl e \<Rightarrow> Inl e
      | Inr st \<Rightarrow>
          Inr (st_sections st
               @ (if st_current_section_lines st \<noteq> [] then
                    (let section_content = strip (join [10] (st_current_section_lines st))
                     in if section_content \<noteq> [] then
                          create_sections_from_content detect section_content
                            (st_current_heading st) (st_current_level st)
                            (st_current_hierarchy st) code_blocks
                        else [])
                  else [])))"

text \<open>The heading lines of a text, as \<^verbatim>\<open>(level, heading_text)\<close>.\<close>

definition headings_of :: "pystr \<Rightarrow> (nat \<times> pystr) list" where
  "headings_of text =
     List.map_filter (\<lambda>line. map_option (\<lambda>(level, group2). (level, strip group2)) (heading_match line))
       (split_char 10 text)"

text \<open>The stacks the code goes through on a sequence of headings: it keeps \<open>level - 1\<close> entries.\<close>

fun code_stacks :: "pystr list \<Rightarrow> (nat \<times> pystr) list \<Rightarrow> pystr list list" where
  "code_stacks h [] = []"
| "code_stacks h ((level, text) # hs) =
     (take (level - 1) h @ [text]) # code_stacks (take (level - 1) h @ [text]) hs"

text \<open>
  The stacks of the specification: entries \<^verbatim>\<open>(level, text)\<close>; on a heading of level \<open>L\<close> the
  entries of level at least \<open>L\<close> are popped from the top, then the heading is pushed.
\<close>

fun spec_pop :: "nat \<Rightarrow> (nat \<times> pystr) list \<Rightarrow> (nat \<times> pystr) list" where
  "spec_pop level stack =
     (if stack \<noteq> [] \<and> level \<le> fst (last stack) then spec_pop level (butlast stack) else stack)"

declare spec_pop.simps [simp del]

fun spec_stacks :: "(nat \<times> pystr) list \<Rightarrow> (nat \<times> pystr) list \<Rightarrow> (nat \<times> pystr) list list" where
  "spec_stacks stack [] = []"
| "spec_stacks stack ((level, text) # hs) =
     (spec_pop level stack @ [(level, text)])
     # spec_stacks (spec_pop level stack @ [(level, text)]) hs"

text \<open>No heading is more than one level deeper than the stack it meets.\<close>

fun no_skip :: "nat \<Rightarrow> (nat \<times> pystr) list \<Rightarrow> bool" where
  "no_skip depth [] = True"
| "no_skip depth ((level, text) # hs) = (1 \<le> level \<and> level \<le> depth + 1 \<and> no_skip level hs)"

text \<open>The hierarchy of the last heading section of a list, \<open>cur\<close> when there is none.\<close>

fun last_hierarchy :: "pystr list \<Rightarrow> ParsedSection list \<Rightarrow> pystr list" where
  "last_hierarchy cur [] = cur"
| "last_hierarchy cur (s # ss) =
     last_hierarchy (if content_type s = HEADING then section_hierarchy s else cur) ss"

text \<open>
  Every section that is not a heading carries the hierarchy of the nearest heading section
  before it, \<open>cur\<close> when there is none.
\<close>

fun attached :: "pystr list \<Rightarrow> ParsedSection list \<Rightarrow> bool" where
  "attached cur [] = True"
| "attached cur (s # ss) =
     (if content_type s = HEADING then attached (section_hierarchy s) ss
      else section_hierarchy s = cur \<and> attached cur ss)"

definition plain_detect :: "pystr \<Rightarrow> ContentType" where
  "plain_detect = detect_content_type (\<lambda>s. False) (\<lambda>s. False)"

text \<open>
  Three Markdown texts: one nests its headings level by level, one starts at level 3, one
  goes from level 1 to two headings of level 3.
\<close>

definition nested_text :: pystr where
  "nested_text = str ''# A'' @ [10] @ str ''## B'' @ [10] @ str ''text'' @ [10] @ str ''# C''"

definition deep_start_text :: pystr where
  "deep_start_text = str ''### B'' @ [10] @ str ''## C''"

definition skipped_level_text :: pystr where
  "skipped_level_text = str ''# A'' @ [10] @ str ''### B'' @ [10] @ str ''### C''"

section \<open>Chunkers: the base class (chunkers/base.py)\<close>

record ParsedDocument =
  filename :: pystr
  sections :: "ParsedSection list"
  document_metadata :: "pystr \<rightharpoonup> pyval"
  raw_text :: "pystr option"

record BaseChunker =
  chunk_size :: int
  chunk_overlap :: int

text \<open>\<^verbatim>\<open>_count_tokens\<close>: \<^verbatim>\<open>len(text) // 3\<close>.\<close>

definition count_tokens :: "pystr \<Rightarrow> int" where
  "count_tokens text = int (length text) div 3"

text \<open>
  \<^verbatim>\<open>Chunk.create\<close>. The id \<^verbatim>\<open>f"chunk_{uuid4().hex[:12]}"\<close> is random: a chunker first builds its
  chunks with an empty id, and \<open>assign_ids\<close> gives the \<open>i\<close>-th chunk created the \<open>i\<close>-th id
  drawn, \<open>uuids i\<close>. Chunks are appended in the order in which they are created.
\<close>

definition create ::
  "pystr \<Rightarrow> pystr \<Rightarrow> ContentType \<Rightarrow> pystr list \<Rightarrow> (pystr \<rightharpoonup> pyval) \<Rightarrow> Chunk" where
  "create document_id text ctype hierarchy meta =
     \<lparr> c_chunk_id = [], c_document_id = document_id, c_content = text, c_content_type = ctype,
       c_section_hierarchy = hierarchy, c_metadata = meta, c_embedding = None \<rparr>"

definition assign_ids :: "(nat \<Rightarrow> pystr) \<Rightarrow> Chunk list \<Rightarrow> Chunk list" where
  "assign_ids uuids chunks = map (\<lambda>(i, c). c\<lparr> c_chunk_id := uuids i \<rparr>) (enumerate 0 chunks)"

text \<open>
  The dict \<^verbatim>\<open>{"heading_text": ..., "heading_level": ..., "code_language": ..., "page_number": ...}\<close>
  of a section without its \<^verbatim>\<open>None\<close> values.
\<close>

definition section_metadata :: "ParsedSection \<Rightarrow> (pystr \<rightharpoonup> pyval)" where
  "section_metadata s =
     (\<lambda>k. if k = str ''heading_text'' then map_option PStr (heading_text s)
          else if k = str ''heading_level'' then map_option PInt (heading_level s)
          else if k = str ''code_language'' then map_option PStr (code_language s)
          else if k = str ''page_number'' then map_option PInt (page_number s)
          else None)"


section \<open>Sentence-boundary chunker (chunkers/semantic_chunker.py)\<close>

record SemanticChunker = BaseChunker +
  respect_sentences :: bool

text \<open>
  \<^verbatim>\<open>char in self.SENTENCE_ENDINGS\<close>: the six one-character members of the set; its member
  \<^verbatim>\<open>"\n\n"\<close> has two characters and never equals a character.
\<close>

definition sentence_ending :: "nat \<Rightarrow> bool" where
  "sentence_ending c \<longleftrightarrow> c \<in> {12290, 65281, 65311, 46, 33, 63}"

text \<open>\<^verbatim>\<open>_split_sentences\<close>: the loop over the characters, then the last part.\<close>

fun split_sentences_loop :: "pystr \<Rightarrow> pystr \<Rightarrow> pystr list" where
  "split_sentences_loop [] current =
     (if current \<noteq> [] then (if strip current \<noteq> [] then [strip current] else []) else [])"
| "split_sentences_loop (c # cs) current =
     (if sentence_ending c then
        (if strip (current @ [c]) \<noteq> [] then [strip (current @ [c])] else [])
        @ split_sentences_loop cs []
      else split_sentences_loop cs (current @ [c]))"

definition split_sentences :: "pystr \<Rightarrow> pystr list" where
  "split_sentences text = split_sentences_loop text []"

text \<open>\<^verbatim>\<open>text.split()\<close>: the maximal runs of characters that are not whitespace.\<close>

fun split_words_loop :: "pystr \<Rightarrow> pystr \<Rightarrow> pystr list" where
  "split_words_loop [] word = (if word \<noteq> [] then [word] else [])"
| "split_words_loop (c # cs) word =
     (if is_space c then (if word \<noteq> [] then [word] else []) @ split_words_loop cs []
      else split_words_loop cs (word @ [c]))"

definition split_words :: "pystr \<Rightarrow> pystr list" where
  "split_words text = split_words_loop text []"

text \<open>
  The loop of \<^verbatim>\<open>_split_long_text\<close> over the words. It returns the word lists
  \<^verbatim>\<open>current_words\<close> that the source joins with a space into its chunks.
\<close>

fun split_long_words ::
  "'a BaseChunker_scheme \<Rightarrow> pystr list \<Rightarrow> pystr list \<Rightarrow> int \<Rightarrow> pystr list list" where
  "split_long_words self [] current_words current_length =
     (if current_words \<noteq> [] then [current_words] else [])"
| "split_long_words self (word # ws) current_words current_length =
     (if current_length + count_tokens word > chunk_size self then
        (if current_words \<noteq> [] then [current_words] else [])
        @ split_long_words self ws [word] (count_tokens word)
      else split_long_words self ws (current_words @ [word]) (current_length + count_tokens word))"

definition split_long_text :: "'a BaseChunker_scheme \<Rightarrow> pystr \<Rightarrow> pystr list" where
  "split_long_text self text = map (join (str '' '')) (split_long_words self (split_words text) [] 0)"

text \<open>\<^verbatim>\<open>_get_overlap_sentences\<close>: the loop over \<^verbatim>\<open>reversed(sentences)\<close>, left at the \<^verbatim>\<open>break\<close>.\<close>

fun overlap_loop :: "'a BaseChunker_scheme \<Rightarrow> pystr list \<Rightarrow> int \<Rightarrow> pystr list \<Rightarrow> pystr list" where
  "overlap_loop self [] overlap_tokens overlap_sentences = overlap_sentences"
| "overlap_loop self (sentence # rest) overlap_tokens overlap_sentences =
     (if overlap_tokens + count_tokens sentence \<le> chunk_overlap self then
        overlap_loop self rest (overlap_tokens + count_tokens sentence) (sentence # overlap_sentences)
      else overlap_sentences)"

definition get_overlap_sentences :: "'a BaseChunker_scheme \<Rightarrow> pystr list \<Rightarrow> pystr list" where
  "get_overlap_sentences self sentences =
     (if sentences = [] then [] else overlap_loop self (rev sentences) 0 [])"

text \<open>
  The loop of \<^verbatim>\<open>_chunk_section\<close> over the sentences, with \<^verbatim>\<open>current_chunk_sentences\<close> and
  \<^verbatim>\<open>current_length\<close>. It returns, chunk by chunk, the list of strings that the source joins
  with a space into the chunk's content: the saved \<^verbatim>\<open>current_chunk_sentences\<close>, and for a
  sentence over the budget the word lists of \<^verbatim>\<open>_split_long_text\<close>.
\<close>

fun chunk_sentences ::
  "'a BaseChunker_scheme \<Rightarrow> pystr list \<Rightarrow> pystr list \<Rightarrow> int \<Rightarrow> pystr list list" where
  "chunk_sentences self [] current current_length = (if current \<noteq> [] then [current] else [])"
| "chunk_sentences self (sentence # rest) current current_length =
     (if count_tokens sentence > chunk_size self then
        (if current \<noteq> [] then [current] else [])
        @ split_long_words self (split_words sentence) [] 0
        @ (if current \<noteq> [] then chunk_sentences self rest [] 0
           else chunk_sentences self rest current current_length)
      else if current_length + count_tokens sentence > chunk_size self then
        (if current \<noteq> [] then
           [current]
           @ chunk_sentences self rest (get_overlap_sentences self current @ [sentence])
               (sum_list (map count_tokens (get_overlap_sentences self current))
                + count_tokens sentence)
         else chunk_sentences self rest (current @ [sentence])
                (current_length + count_tokens sentence))
      else chunk_sentences self rest (current @ [sentence]) (current_length + count_tokens sentence))"

text \<open>
  The string lists of the chunks of one section: the content alone when the section is
  within the budget or is a code block or a table.
\<close>

definition section_units :: "'a BaseChunker_scheme \<Rightarrow> ParsedSection \<Rightarrow> pystr list list" where
  "section_units self s =
     (if count_tokens (content s) \<le> chunk_size self then [[content s]]
      else if content_type s \<in> {CODE_BLOCK, TABLE} then [[content s]]
      else chunk_sentences self (split_sentences (content s)) [] 0)"

text \<open>\<^verbatim>\<open>_chunk_section\<close>: every chunk of a section has the section's type, hierarchy and metadata.\<close>

definition chunk_section :: "'a BaseChunker_scheme \<Rightarrow> pystr \<Rightarrow> ParsedSection \<Rightarrow> Chunk list" where
  "chunk_section self document_id s =
     map (\<lambda>units. create document_id (join (str '' '') units) (content_type s)
                    (section_hierarchy s) (section_metadata s))
       (section_units self s)"

definition semantic_chunk ::
  "'a BaseChunker_scheme \<Rightarrow> (nat \<Rightarrow> pystr) \<Rightarrow> ParsedDocument \<Rightarrow> pystr \<Rightarrow> Chunk list" where
  "semantic_chunk self uuids document document_id =
     assign_ids uuids (concat (map (chunk_section self document_id) (sections document)))"


section \<open>Hierarchy-grouping chunker (chunkers/structure_chunker.py)\<close>

record StructureChunker = BaseChunker +
  min_chunk_size :: int
  include_heading_in_chunk :: bool

text \<open>
  \<^verbatim>\<open>_group_sections_by_hierarchy\<close>: the loop with \<^verbatim>\<open>current_hierarchy\<close> and
  \<^verbatim>\<open>current_sections\<close>, then the last group.
\<close>

fun group_loop ::
  "ParsedSection list \<Rightarrow> pystr list \<Rightarrow> ParsedSection list \<Rightarrow>
   (pystr list \<times> ParsedSection list) list" where
  "group_loop [] current_hierarchy current_sections =
     (if current_sections \<noteq> [] then [(current_hierarchy, current_sections)] else [])"
| "group_loop (s # rest) current_hierarchy current_sections =
     (if content_type s = HEADING then
        (if current_sections \<noteq> [] then [(current_hierarchy, current_sections)] else [])
        @ group_loop rest (section_hierarchy s) []
      else if section_hierarchy s \<noteq> current_hierarchy then
        (if current_sections \<noteq> [] then [(current_hierarchy, current_sections)] else [])
        @ group_loop rest (section_hierarchy s) [s]
      else group_loop rest current_hierarchy (current_sections @ [s]))"

definition group_sections_by_hierarchy ::
  "ParsedSection list \<Rightarrow> (pystr list \<times> ParsedSection list) list" where
  "group_sections_by_hierarchy secs = group_loop secs [] []"

text \<open>\<^verbatim>\<open>_get_dominant_content_type_from_list\<close>: \<^verbatim>\<open>max\<close> keeps the first of the largest.\<close>

fun priority :: "ContentType \<Rightarrow> nat" where
  "priority CODE_BLOCK = 4"
| "priority TABLE = 3"
| "priority LIST = 2"
| "priority TEXT = 1"
| "priority HEADING = 0"

definition get_dominant_content_type_from_list :: "ContentType list \<Rightarrow> ContentType" where
  "get_dominant_content_type_from_list types =
     (case types of
        [] \<Rightarrow> TEXT
      | t # ts \<Rightarrow> foldl (\<lambda>best u. if priority best < priority u then u else best) t ts)"

text \<open>\<^verbatim>\<open>_merge_metadata\<close>: for each key, the first value that is not \<^verbatim>\<open>None\<close>.\<close>

definition merge_metadata :: "ParsedSection list \<Rightarrow> (pystr \<rightharpoonup> pyval)" where
  "merge_metadata parts = foldl (\<lambda>merged s. section_metadata s ++ merged) Map.empty parts"

text \<open>
  The content of a chunk: the joined strings, after the heading prefix
  \<^verbatim>\<open>" > ".join(hierarchy) + "\n\n"\<close> when that is configured and the hierarchy is not empty.
\<close>

definition with_heading :: "'a StructureChunker_scheme \<Rightarrow> pystr list \<Rightarrow> pystr \<Rightarrow> pystr" where
  "with_heading self hierarchy body =
     (if include_heading_in_chunk self \<and> hierarchy \<noteq> []
      then join (str '' > '') hierarchy @ [10, 10] @ body else body)"

text \<open>
  What a chunk of this chunker is made of: the separator, the strings it joins, the
  content type and the metadata.
\<close>

record piece =
  separator :: pystr
  units :: "pystr list"
  piece_type :: ContentType
  piece_metadata :: "pystr \<rightharpoonup> pyval"

text \<open>The loop of \<^verbatim>\<open>_split_large_content\<close> over the lines: the saved \<^verbatim>\<open>current_lines\<close>.\<close>

fun split_lines_loop ::
  "'a BaseChunker_scheme \<Rightarrow> pystr list \<Rightarrow> pystr list \<Rightarrow> int \<Rightarrow> pystr list list" where
  "split_lines_loop self [] current_lines current_tokens =
     (if current_lines \<noteq> [] then [current_lines] else [])"
| "split_lines_loop self (line # rest) current_lines current_tokens =
     (if current_tokens + count_tokens line > chunk_size self then
        (if current_lines \<noteq> [] then
           [current_lines] @ split_lines_loop self rest [line] (0 + count_tokens line)
         else split_lines_loop self rest (current_lines @ [line])
                (current_tokens + count_tokens line))
      else split_lines_loop self rest (current_lines @ [line]) (current_tokens + count_tokens line))"

definition split_large_content ::
  "'a BaseChunker_scheme \<Rightarrow> pystr \<Rightarrow> ContentType \<Rightarrow> piece list" where
  "split_large_content self body ctype =
     (if ctype \<in> {CODE_BLOCK, TABLE} then
        [\<lparr> separator = [10], units = [body], piece_type = ctype, piece_metadata = Map.empty \<rparr>]
      else
        map (\<lambda>ls. \<lparr> separator = [10], units = ls, piece_type = ctype,
                     piece_metadata = Map.empty \<rparr>)
          (split_lines_loop self (split_char 10 body) [] 0))"

text \<open>
  The loop of \<^verbatim>\<open>_chunk_section_group\<close> over the parts, with \<^verbatim>\<open>current_content\<close>,
  \<^verbatim>\<open>current_tokens\<close> and \<^verbatim>\<open>current_types\<close>; \<open>saved_piece\<close> is the chunk saved from them.
\<close>

definition saved_piece :: "pystr list \<Rightarrow> ContentType list \<Rightarrow> piece list" where
  "saved_piece current_content current_types =
     (if current_content \<noteq> [] then
        [\<lparr> separator = [10, 10], units = current_content,
           piece_type = get_dominant_content_type_from_list current_types,
           piece_metadata = Map.empty \<rparr>]
      else [])"

fun group_parts_loop ::
  "'a BaseChunker_scheme \<Rightarrow> ParsedSection list \<Rightarrow> pystr list \<Rightarrow> int \<Rightarrow> ContentType list \<Rightarrow>
   piece list" where
  "group_parts_loop self [] current_content current_tokens current_types =
     saved_piece current_content current_types"
| "group_parts_loop self (part # rest) current_content current_tokens current_types =
     (if count_tokens (content part) > chunk_size self then
        saved_piece current_content current_types
        @ split_large_content self (content part) (content_type part)
        @ (if current_content \<noteq> [] then group_parts_loop self rest [] 0 []
           else group_parts_loop self rest current_content current_tokens current_types)
      else if current_tokens + count_tokens (content part) > chunk_size self then
        saved_piece current_content current_types
        @ (if current_content \<noteq> [] then
             group_parts_loop self rest [content part] (0 + count_tokens (content part))
               [content_type part]
           else group_parts_loop self rest (current_content @ [content part])
                  (current_tokens + count_tokens (content part))
                  (current_types @ [content_type part]))
      else group_parts_loop self rest (current_content @ [content part])
             (current_tokens + count_tokens (content part)) (current_types @ [content_type part]))"

text \<open>The pieces of one group: a single piece when the whole group is within the budget.\<close>

definition group_pieces :: "'a BaseChunker_scheme \<Rightarrow> ParsedSection list \<Rightarrow> piece list" where
  "group_pieces self parts =
     (if sum_list (map (\<lambda>p. count_tokens (content p)) parts) \<le> chunk_size self then
        [\<lparr> separator = [10, 10], units = map content parts,
           piece_type = get_dominant_content_type_from_list (map content_type parts),
           piece_metadata = merge_metadata parts \<rparr>]
      else group_parts_loop self parts [] 0 [])"

definition chunk_section_group ::
  "'a StructureChunker_scheme \<Rightarrow> ParsedSection list \<Rightarrow> pystr \<Rightarrow> pystr list \<Rightarrow> Chunk list" where
  "chunk_section_group self parts document_id hierarchy =
     map (\<lambda>p. create document_id (with_heading self hierarchy (join (separator p) (units p)))
                (piece_type p) hierarchy (piece_metadata p))
       (group_pieces self parts)"

definition structure_chunk ::
  "'a StructureChunker_scheme \<Rightarrow> (nat \<Rightarrow> pystr) \<Rightarrow> ParsedDocument \<Rightarrow> pystr \<Rightarrow> Chunk list" where
  "structure_chunk self uuids document document_id =
     assign_ids uuids
       (concat (map (\<lambda>(group_hierarchy, parts).
                       chunk_section_group self parts document_id group_hierarchy)
                  (group_sections_by_hierarchy (sections document))))"

text \<open>Sections, documents and chunkers used to evaluate the chunkers.\<close>

definition plain_section :: "pystr \<Rightarrow> ContentType \<Rightarrow> pystr list \<Rightarrow> ParsedSection" where
  "plain_section body ctype hierarchy =
     \<lparr> content = body, content_type = ctype, heading_level = None, heading_text = None,
       section_hierarchy = hierarchy, metadata = Map.empty, page_number = None,
       code_language = None \<rparr>"

definition document_of :: "ParsedSection list \<Rightarrow> ParsedDocument" where
  "document_of secs =
     \<lparr> filename = str ''test.md'', sections = secs, document_metadata = Map.empty,
       raw_text = None \<rparr>"

definition small_semantic :: SemanticChunker where
  "small_semantic = \<lparr> chunk_size = 3, chunk_overlap = 1, respect_sentences = True \<rparr>"

definition small_structure :: StructureChunker where
  "small_structure =
     \<lparr> chunk_size = 2, chunk_overlap = 1, min_chunk_size = 1, include_heading_in_chunk = True \<rparr>"

definition numbered_ids :: "nat \<Rightarrow> pystr" where
  "numbered_ids i = str ''chunk_'' @ decimal i"

definition heading_only_document :: ParsedDocument where
  "heading_only_document = document_of [plain_section (str ''# T'') HEADING [str ''T'']]"

definition blank_document :: ParsedDocument where
  "blank_document = document_of [plain_section (str ''            '') TEXT []]"

definition two_sentence_document :: ParsedDocument where
  "two_sentence_document = document_of [plain_section (str ''aaa.bbbbbbbb.'') TEXT []]"

definition prefixed_document :: ParsedDocument where
  "prefixed_document =
     document_of [plain_section (str ''# T'') HEADING [str ''T''],
                  plain_section (str ''abcdef'') TEXT [str ''T'']]"


section \<open>What the chunks of a section are cut from\<close>







section \<open>Regular expressions (the part of \<^verbatim>\<open>re\<close> the extractors use)\<close>

text \<open>
  A pattern is compiled with its flags. The text is matched by backtracking: at a
  position the alternatives are tried in the order of the pattern, a greedy repetition
  trying one more round before it tries to stop and a lazy one the other way round, and
  the first way through the whole pattern is the match. Character classes are given on
  ASCII text: there \<^verbatim>\<open>\w\<close> is a letter, a digit or the underscore, and \<^verbatim>\<open>IGNORECASE\<close>,
  \<^verbatim>\<open>lower()\<close> and \<^verbatim>\<open>upper()\<close> act on the 26 letters.
\<close>

record flags =
  IGNORECASE :: bool
  DOTALL :: bool
  MULTILINE :: bool

datatype item = C nat | IW | IS

datatype regex =
    REmpty
  | RSet bool "item list"
  | RDot
  | RBol
  | REol
  | RCat regex regex
  | RAlt regex regex
  | ROpt regex
  | RStar regex
  | RLazy regex
  | RGroup nat regex

definition is_word :: "nat \<Rightarrow> bool" where
  "is_word c \<longleftrightarrow>
     c = 95 \<or> (48 \<le> c \<and> c \<le> 57) \<or> (65 \<le> c \<and> c \<le> 90) \<or> (97 \<le> c \<and> c \<le> 122)"

definition lower_char :: "nat \<Rightarrow> nat" where
  "lower_char c = (if 65 \<le> c \<and> c \<le> 90 then c + 32 else c)"

definition upper_char :: "nat \<Rightarrow> nat" where
  "upper_char c = (if 97 \<le> c \<and> c \<le> 122 then c - 32 else c)"

definition py_lower :: "pystr \<Rightarrow> pystr" where
  "py_lower s = map lower_char s"

definition py_upper :: "pystr \<Rightarrow> pystr" where
  "py_upper s = map upper_char s"

fun item_match :: "flags \<Rightarrow> item \<Rightarrow> nat \<Rightarrow> bool" where
  "item_match fl (C x) c = (c = x \<or> (IGNORECASE fl \<and> lower_char c = lower_char x))"
| "item_match fl IW c = is_word c"
| "item_match fl IS c = is_space c"

text \<open>
  A position in the text: the character before it (none at the start), the text from it
  on, and the groups captured so far.
\<close>

record mstate =
  m_prev :: "nat option"
  m_rest :: pystr
  m_groups :: "(nat \<times> pystr) list"

definition advance :: "mstate \<Rightarrow> nat \<Rightarrow> pystr \<Rightarrow> mstate" where
  "advance s c cs = s\<lparr> m_prev := Some c, m_rest := cs \<rparr>"

text \<open>
  All the ways through a pattern from a position, in the order in which backtracking
  tries them. A round of a repetition that consumes nothing is not repeated, so a
  repetition makes at most one round per character; \<open>fuel\<close>, a list as long as the text,
  counts the rounds.
\<close>

fun rmatch :: "flags \<Rightarrow> pystr \<Rightarrow> regex \<Rightarrow> mstate \<Rightarrow> mstate list" where
  "rmatch fl fuel REmpty s = [s]"
| "rmatch fl fuel (RSet negated items) s =
     (case m_rest s of
        [] \<Rightarrow> []
      | c # cs \<Rightarrow> if (\<exists>i \<in> set items. item_match fl i c) \<noteq> negated then [advance s c cs] else [])"
| "rmatch fl fuel RDot s =
     (case m_rest s of
        [] \<Rightarrow> []
      | c # cs \<Rightarrow> if DOTALL fl \<or> c \<noteq> 10 then [advance s c cs] else [])"
| "rmatch fl fuel RBol s =
     (if m_prev s = None \<or> (MULTILINE fl \<and> m_prev s = Some 10) then [s] else [])"
| "rmatch fl fuel REol s =
     (if m_rest s = [] \<or> m_rest s = [10] \<or> (MULTILINE fl \<and> take 1 (m_rest s) = [10])
      then [s] else [])"
| "rmatch fl fuel (RCat a b) s = concat (map (rmatch fl fuel b) (rmatch fl fuel a s))"
| "rmatch fl fuel (RAlt a b) s = rmatch fl fuel a s @ rmatch fl fuel b s"
| "rmatch fl fuel (ROpt a) s = rmatch fl fuel a s @ [s]"
| "rmatch fl [] (RStar a) s = [s]"
| "rmatch fl (x # fuel) (RStar a) s =
     concat (map (rmatch fl fuel (RStar a))
               (filter (\<lambda>s'. length (m_rest s') < length (m_rest s)) (rmatch fl (x # fuel) a s)))
     @ [s]"
| "rmatch fl [] (RLazy a) s = [s]"
| "rmatch fl (x # fuel) (RLazy a) s =
     [s]
     @ concat (map (rmatch fl fuel (RLazy a))
                 (filter (\<lambda>s'. length (m_rest s') < length (m_rest s)) (rmatch fl (x # fuel) a s)))"
| "rmatch fl fuel (RGroup n a) s =
     map (\<lambda>s'. s'\<lparr> m_groups :=
                     (n, take (length (m_rest s) - length (m_rest s')) (m_rest s)) # m_groups s' \<rparr>)
       (rmatch fl fuel a s)"

text \<open>\<^verbatim>\<open>match.group(n)\<close> of a group that took part in the match.\<close>

definition group :: "mstate \<Rightarrow> nat \<Rightarrow> pystr" where
  "group m n = (case map_of (m_groups m) n of Some g \<Rightarrow> g | None \<Rightarrow> [])"

text \<open>
  \<^verbatim>\<open>pattern.finditer(text)\<close>: the match at the first position that has one, then the
  search goes on where the match ended (one character further when the match is empty).
\<close>

fun finditer_loop :: "flags \<Rightarrow> pystr \<Rightarrow> regex \<Rightarrow> pystr \<Rightarrow> mstate \<Rightarrow> mstate list" where
  "finditer_loop fl text r [] s =
     (case rmatch fl text r s of [] \<Rightarrow> [] | m # others \<Rightarrow> [m])"
| "finditer_loop fl text r (x # fuel) s =
     (case rmatch fl text r s of
        [] \<Rightarrow>
          (case m_rest s of
             [] \<Rightarrow> []
           | c # cs \<Rightarrow> finditer_loop fl text r fuel (advance s c cs))
      | m # others \<Rightarrow>
          m # (if length (m_rest m) < length (m_rest s)
               then finditer_loop fl text r fuel (m\<lparr> m_groups := [] \<rparr>)
               else (case m_rest s of
                       [] \<Rightarrow> []
                     | c # cs \<Rightarrow> finditer_loop fl text r fuel (advance s c cs))))"

definition finditer :: "flags \<Rightarrow> regex \<Rightarrow> pystr \<Rightarrow> mstate list" where
  "finditer fl r text =
     finditer_loop fl text r text \<lparr> m_prev = None, m_rest = text, m_groups = [] \<rparr>"

text \<open>\<^verbatim>\<open>re.match(pattern, text)\<close>: a match at the start of the text, or \<^verbatim>\<open>None\<close>.\<close>

definition re_match :: "flags \<Rightarrow> regex \<Rightarrow> pystr \<Rightarrow> mstate option" where
  "re_match fl r text =
     (case rmatch fl text r \<lparr> m_prev = None, m_rest = text, m_groups = [] \<rparr> of
        [] \<Rightarrow> None
      | m # others \<Rightarrow> Some m)"

text \<open>How the patterns are written: a literal string, a sequence, alternatives, \<^verbatim>\<open>+\<close>.\<close>

definition chr :: "nat \<Rightarrow> regex" where
  "chr c = RSet False [C c]"

definition lit :: "string \<Rightarrow> regex" where
  "lit s = foldr (\<lambda>c r. RCat (chr (of_char c)) r) s REmpty"

definition cat :: "regex list \<Rightarrow> regex" where
  "cat rs = foldr RCat rs REmpty"

fun alts :: "regex list \<Rightarrow> regex" where
  "alts [] = RSet False []"
| "alts [r] = r"
| "alts (r # rs) = RAlt r (alts rs)"

definition one_or_more :: "regex \<Rightarrow> regex" where
  "one_or_more r = RCat r (RStar r)"

definition no_flags :: flags where
  "no_flags = \<lparr> IGNORECASE = False, DOTALL = False, MULTILINE = False \<rparr>"


section \<open>Table schema extractor (extractors/table_extractor.py)\<close>

text \<open>
  The two kinds of column dict: \<^verbatim>\<open>{"name", "type", "nullable", "primary_key"}\<close> from
  \<^verbatim>\<open>CREATE TABLE\<close> and \<^verbatim>\<open>{"name", "type", "description"}\<close> from a Markdown table. An entry
  of \<^verbatim>\<open>column_definitions\<close> has the key \<^verbatim>\<open>"table"\<close> only in the first case.
\<close>

datatype column =
    SqlColumn (col_name: pystr) (col_type: pystr) (nullable: bool) (primary_key: bool)
  | MdColumn (col_name: pystr) (col_type: pystr) (description: pystr)

record column_definition =
  cd_table :: "pystr option"
  cd_columns :: "column list"

text \<open>\<^verbatim>\<open>ExtractedMetadata\<close>: the two fields this extractor fills; the others keep their defaults.\<close>

record ExtractedMetadata =
  table_names :: "pystr list"
  column_definitions :: "column_definition list"

text \<open>\<^verbatim>\<open>TABLE_NAME_PATTERNS\<close>, each with its flags.\<close>

definition quote :: regex where
  "quote = ROpt (RSet False [C 96, C 39, C 34])"

definition TABLE_NAME_PATTERNS :: "(flags \<times> regex) list" where
  "TABLE_NAME_PATTERNS =
     [(no_flags\<lparr> IGNORECASE := True \<rparr>,
       cat [RAlt (lit ''table'') (RCat (chr 34920) (ROpt (chr 26684))),
            one_or_more (RSet False [C 58, C 65306, IS]),
            quote, RGroup 1 (one_or_more (RSet False [IW])), quote]),
      (no_flags\<lparr> IGNORECASE := True \<rparr>,
       cat [lit ''CREATE'', one_or_more (RSet False [IS]), lit ''TABLE'', one_or_more (RSet False [IS]),
            ROpt (cat [lit ''IF'', one_or_more (RSet False [IS]), lit ''NOT'', one_or_more (RSet False [IS]),
                       lit ''EXISTS'', one_or_more (RSet False [IS])]),
            quote, RGroup 1 (one_or_more (RSet False [IW])), quote]),
      (no_flags\<lparr> IGNORECASE := True, MULTILINE := True \<rparr>,
       cat [RBol, one_or_more (chr 35), RStar (RSet False [IS]), RGroup 1 (one_or_more (RSet False [IW])),
            RStar (RSet False [IS]), RAlt (lit ''table'') (chr 34920)]),
      (no_flags\<lparr> IGNORECASE := True \<rparr>,
       cat [RAlt (lit ''sheet'') (cat [chr 24037, chr 20316, chr 34920]),
            one_or_more (RSet False [C 58, C 65306, IS]),
            RGroup 1 (one_or_more (RSet False [IW]))])]"

text \<open>\<^verbatim>\<open>COLUMN_PATTERN\<close>, compiled with \<^verbatim>\<open>IGNORECASE\<close>.\<close>

definition COLUMN_PATTERN :: regex where
  "COLUMN_PATTERN =
     cat [quote, RGroup 1 (one_or_more (RSet False [IW])), quote, one_or_more (RSet False [IS]),
          RGroup 2
            (cat [alts (map lit [''VARCHAR'', ''CHAR'', ''INT'', ''INTEGER'', ''BIGINT'',
                                 ''DECIMAL'', ''NUMERIC'', ''FLOAT'', ''DOUBLE'', ''TEXT'',
                                 ''DATE'', ''DATETIME'', ''TIMESTAMP'', ''BOOLEAN'', ''BOOL'',
                                 ''JSON'', ''UUID'', ''SERIAL'']),
                  RStar (RSet False [IW, C 40, C 41, C 44, IS])])]"

text \<open>\<^verbatim>\<open>create_table_pattern\<close> of \<^verbatim>\<open>extract_from_text\<close>, with \<^verbatim>\<open>IGNORECASE | DOTALL\<close>.\<close>

definition create_table_pattern :: regex where
  "create_table_pattern =
     cat [lit ''CREATE'', one_or_more (RSet False [IS]), lit ''TABLE'', one_or_more (RSet False [IS]),
          ROpt (cat [lit ''IF'', one_or_more (RSet False [IS]), lit ''NOT'', one_or_more (RSet False [IS]),
                     lit ''EXISTS'', one_or_more (RSet False [IS])]),
          quote, RGroup 1 (one_or_more (RSet False [IW])), quote, RStar (RSet False [IS]),
          chr 40, RGroup 2 (RLazy RDot), chr 41]"

text \<open>\<^verbatim>\<open>table_pattern\<close> of \<^verbatim>\<open>_extract_from_markdown_table\<close>, with \<^verbatim>\<open>MULTILINE\<close>.\<close>

definition table_pattern :: regex where
  "table_pattern =
     cat [chr 124, RGroup 1 (one_or_more (RSet True [C 10])), chr 124, chr 10,
          chr 124, one_or_more (RSet False [C 45, C 58, IS, C 124]), chr 124, chr 10,
          RGroup 2 (one_or_more (cat [chr 124, one_or_more (RSet True [C 10]), chr 124, ROpt (chr 10)]))]"

text \<open>\<^verbatim>\<open>_is_valid_table_name\<close>\<close>

definition invalid_names :: "pystr set" where
  "invalid_names =
     str ` {''the'', ''a'', ''an'', ''this'', ''that'', ''table'', ''schema'', ''column'',
            ''field'', ''name'', ''type'', ''description'', ''create'', ''select'', ''insert'',
            ''update'', ''delete''}"

definition is_valid_table_name :: "pystr \<Rightarrow> bool" where
  "is_valid_table_name name =
     (if re_match no_flags (cat [RBol, one_or_more (RSet False [IW]), REol]) name = None then False
      else py_lower name \<notin> invalid_names)"

text \<open>\<^verbatim>\<open>_parse_columns\<close>: one dict per match of \<^verbatim>\<open>COLUMN_PATTERN\<close> in the body.\<close>

definition contains :: "pystr \<Rightarrow> pystr \<Rightarrow> bool" where
  "contains sub s \<longleftrightarrow> split_first sub s \<noteq> None"

definition parse_columns :: "pystr \<Rightarrow> column list" where
  "parse_columns columns_text =
     map (\<lambda>m. SqlColumn (group m 1) (strip (group m 2))
                 (\<not> contains (str ''NOT NULL'') (py_upper columns_text))
                 (contains (str ''PRIMARY KEY'') (py_upper columns_text)))
       (finditer (no_flags\<lparr> IGNORECASE := True \<rparr>) COLUMN_PATTERN columns_text)"

text \<open>\<^verbatim>\<open>_extract_from_markdown_table\<close>\<close>

definition cells_of :: "pystr \<Rightarrow> pystr list" where
  "cells_of row = map strip (filter (\<lambda>c. strip c \<noteq> []) (split_char 124 row))"

definition schema_keywords :: "pystr list" where
  "schema_keywords =
     map str [''column'', ''field'', ''name'', ''type'', ''datatype'', ''description'']"

definition row_columns :: "pystr \<Rightarrow> column list" where
  "row_columns row =
     (let cells = cells_of row
      in if length cells \<ge> 2 then
           [MdColumn (cells ! 0) (if length cells > 1 then cells ! 1 else [])
              (if length cells > 2 then cells ! 2 else [])]
         else [])"

definition extract_from_markdown_table :: "pystr \<Rightarrow> column_definition list" where
  "extract_from_markdown_table text =
     concat (map (\<lambda>m.
        let headers = cells_of (group m 1);
            header_lower = map py_lower headers
        in if \<not> (\<exists>kw \<in> set schema_keywords. contains kw (join (str '' '') header_lower))
           then []
           else
             let rows = split_char 10 (strip (group m 2));
                 columns = concat (map row_columns rows)
             in if columns \<noteq> [] then [\<lparr> cd_table = None, cd_columns = columns \<rparr>] else [])
       (finditer (no_flags\<lparr> MULTILINE := True \<rparr>) table_pattern text))"

text \<open>
  \<^verbatim>\<open>extract_from_text\<close>. The set \<^verbatim>\<open>table_names\<close> is kept as the list of its members, and
  \<^verbatim>\<open>sorted\<close> puts them in the lexicographic order of their code points.
\<close>

definition set_add :: "pystr \<Rightarrow> pystr list \<Rightarrow> pystr list" where
  "set_add x xs = (if x \<in> set xs then xs else xs @ [x])"

fun str_le :: "pystr \<Rightarrow> pystr \<Rightarrow> bool" where
  "str_le [] t = True"
| "str_le (x # xs) [] = False"
| "str_le (x # xs) (y # ys) = (x < y \<or> (x = y \<and> str_le xs ys))"

fun insert_sorted :: "pystr \<Rightarrow> pystr list \<Rightarrow> pystr list" where
  "insert_sorted x [] = [x]"
| "insert_sorted x (y # ys) = (if str_le x y then x # y # ys else y # insert_sorted x ys)"

definition sorted_strs :: "pystr list \<Rightarrow> pystr list" where
  "sorted_strs xs = foldr insert_sorted xs []"

definition pattern_names :: "pystr \<Rightarrow> pystr list \<Rightarrow> (flags \<times> regex) \<Rightarrow> pystr list" where
  "pattern_names text names p =
     foldl (\<lambda>acc m. let table_name = py_lower (group m 1)
                     in if \<not> is_valid_table_name table_name then acc
                        else set_add table_name acc)
       names (finditer (fst p) (snd p) text)"

definition extract_from_text :: "pystr \<Rightarrow> ExtractedMetadata" where
  "extract_from_text text =
     (let names1 = foldl (pattern_names text) [] TABLE_NAME_PATTERNS;
          creates = finditer (no_flags\<lparr> IGNORECASE := True, DOTALL := True \<rparr>)
                      create_table_pattern text;
          names2 = foldl (\<lambda>acc m. set_add (py_lower (group m 1)) acc) names1 creates;
          defs = concat (map (\<lambda>m. let columns = parse_columns (group m 2)
                                   in if columns \<noteq> [] then
                                        [\<lparr> cd_table = Some (py_lower (group m 1)),
                                           cd_columns = columns \<rparr>]
                                      else [])
                           creates);
          md_columns = extract_from_markdown_table text
      in \<lparr> table_names = sorted_strs names2, column_definitions = defs @ md_columns \<rparr>)"

definition users_statement :: pystr where
  "users_statement = str ''CREATE TABLE users (id INT PRIMARY KEY, name VARCHAR(50))''"
section \<open>Payload of a chunk\<close>

lemma str_keys_distinct:
  "str ''chunk_id'' \<noteq> str ''document_id''" "str ''chunk_id'' \<noteq> str ''content''"
  "str ''chunk_id'' \<noteq> str ''content_type''" "str ''chunk_id'' \<noteq> str ''section_hierarchy''"
  "str ''document_id'' \<noteq> str ''content''" "str ''document_id'' \<noteq> str ''content_type''"
  "str ''document_id'' \<noteq> str ''section_hierarchy''" "str ''content'' \<noteq> str ''content_type''"
  "str ''content'' \<noteq> str ''section_hierarchy''"
  "str ''content_type'' \<noteq> str ''section_hierarchy''"
  by (simp_all add: str_def)

text \<open>
  C10. The payload of a chunk holds, under every key of the chunk's metadata, the metadata
  value, also when the key is one of the five fixed keys; under a fixed key that the
  metadata does not have, the fixed value; and nothing else.
\<close>

theorem to_payload_entries:
  "to_payload c k =
     (case c_metadata c k of
        Some v \<Rightarrow> Some v
      | None \<Rightarrow>
          if k = str ''chunk_id'' then Some (PStr (c_chunk_id c))
          else if k = str ''document_id'' then Some (PStr (c_document_id c))
          else if k = str ''content'' then Some (PStr (c_content c))
          else if k = str ''content_type'' then Some (PStr (content_type_value (c_content_type c)))
          else if k = str ''section_hierarchy'' then Some (PList (c_section_hierarchy c))
          else None)"
  using str_keys_distinct
  by (auto simp: to_payload_def map_add_def split: option.splits)


section \<open>Cross-reference retrieval\<close>

lemma dedupe_subseq: "subseq (dedupe seen xs) xs"
  by (induction xs arbitrary: seen) auto

lemma dedupe_ids: "r_chunk_id ` set (dedupe seen xs) = r_chunk_id ` set xs - seen"
  by (induction xs arbitrary: seen) auto

lemma dedupe_distinct: "distinct (map r_chunk_id (dedupe seen xs))"
proof (induction xs arbitrary: seen)
  case Nil
  show ?case by simp
next
  case (Cons x xs)
  have "r_chunk_id x \<notin> r_chunk_id ` set (dedupe (insert (r_chunk_id x) seen) xs)"
    by (simp add: dedupe_ids)
  with Cons show ?case by simp
qed

lemma dedupe_first:
  "x \<in> set (dedupe seen xs) \<Longrightarrow> find (\<lambda>y. r_chunk_id y = r_chunk_id x) xs = Some x"
proof (induction xs arbitrary: seen)
  case Nil
  then show ?case by simp
next
  case (Cons a xs)
  show ?case
  proof (cases "r_chunk_id a \<in> seen")
    case True
    with Cons.prems have mem: "x \<in> set (dedupe seen xs)" by simp
    then have "r_chunk_id x \<in> r_chunk_id ` set (dedupe seen xs)" by blast
    then have "r_chunk_id x \<notin> seen" by (simp add: dedupe_ids)
    with True have "r_chunk_id a \<noteq> r_chunk_id x" by auto
    with Cons.IH [OF mem] show ?thesis by simp
  next
    case False
    with Cons.prems have "x = a \<or> x \<in> set (dedupe (insert (r_chunk_id a) seen) xs)" by simp
    then show ?thesis
    proof
      assume "x = a"
      then show ?thesis by simp
    next
      assume mem: "x \<in> set (dedupe (insert (r_chunk_id a) seen) xs)"
      then have "r_chunk_id x \<in> r_chunk_id ` set (dedupe (insert (r_chunk_id a) seen) xs)" by blast
      then have "r_chunk_id a \<noteq> r_chunk_id x" by (auto simp: dedupe_ids)
      with Cons.IH [OF mem] show ?thesis by simp
    qed
  qed
qed

text \<open>
  C5. When the cross-reference search succeeds, \<open>retrieve\<close> returns a subsequence of the
  primary results followed by the cross-reference results that has the same chunk ids,
  in which every result is the first one of the concatenation with its chunk id, and in
  which no chunk id occurs twice.
\<close>

theorem retrieve_dedup_first_wins:
  assumes "find_cross_references self (primary_retrieve self query top_k flt) = Inr cross_refs"
  shows "\<exists>res. retrieve self query top_k flt = Inr res
           \<and> subseq res (primary_retrieve self query top_k flt @ cross_refs)
           \<and> r_chunk_id ` set res = r_chunk_id ` set (primary_retrieve self query top_k flt @ cross_refs)
           \<and> (\<forall>x \<in> set res. find (\<lambda>y. r_chunk_id y = r_chunk_id x)
                               (primary_retrieve self query top_k flt @ cross_refs) = Some x)
           \<and> distinct (map r_chunk_id res)"
proof -
  let ?combined = "primary_retrieve self query top_k flt @ cross_refs"
  have "retrieve self query top_k flt = Inr (dedupe {} ?combined)"
    using assms by (simp add: retrieve_def)
  moreover have "subseq (dedupe {} ?combined) ?combined" by (rule dedupe_subseq)
  moreover have "r_chunk_id ` set (dedupe {} ?combined) = r_chunk_id ` set ?combined"
    by (simp add: dedupe_ids)
  moreover have "\<forall>x \<in> set (dedupe {} ?combined).
      find (\<lambda>y. r_chunk_id y = r_chunk_id x) ?combined = Some x"
    using dedupe_first by blast
  moreover have "distinct (map r_chunk_id (dedupe {} ?combined))" by (rule dedupe_distinct)
  ultimately show ?thesis by blast
qed

lemma demo_cross:
  "\<exists>cr. find_cross_references demo_retriever (primary_retrieve demo_retriever (str ''q'') 5 None) = Inr cr
     \<and> map r_chunk_id cr = [str ''c2'', str ''c3'', str ''c1'']"
  by (simp add: primary_retrieve_def demo_retriever_def mk_hit_def cross_refs_of_def
      search_related_def get_default_def payload_metadata_def str_def py_take_def restrict_map_def)

lemma demo_retrieve:
  "\<exists>res. retrieve demo_retriever (str ''q'') 5 None = Inr res
     \<and> map r_chunk_id res = [str ''c1'', str ''c2'', str ''c3'']"
  by (simp add: retrieve_def primary_retrieve_def demo_retriever_def mk_hit_def cross_refs_of_def
      search_related_def get_default_def payload_metadata_def str_def py_take_def restrict_map_def)

theorem retrieve_dedup_first_wins_witness:
  "\<exists>res. retrieve demo_retriever (str ''q'') 5 None = Inr res
     \<and> map r_chunk_id res = [str ''c1'', str ''c2'', str ''c3'']
     \<and> distinct (map r_chunk_id res)"
proof -
  obtain cr where cr: "find_cross_references demo_retriever
      (primary_retrieve demo_retriever (str ''q'') 5 None) = Inr cr"
    using demo_cross by (elim exE conjE)
  from retrieve_dedup_first_wins [OF cr] obtain res where
    res: "retrieve demo_retriever (str ''q'') 5 None = Inr res"
    and d: "distinct (map r_chunk_id res)"
    by (elim exE conjE)
  from demo_retrieve res have ids: "map r_chunk_id res = [str ''c1'', str ''c2'', str ''c3'']"
    by auto
  show ?thesis
  proof (intro exI conjI)
    show "retrieve demo_retriever (str ''q'') 5 None = Inr res" by (rule res)
    show "map r_chunk_id res = [str ''c1'', str ''c2'', str ''c3'']" by (rule ids)
    show "distinct (map r_chunk_id res)" by (rule d)
  qed
qed

lemma dedupe_member: "x \<in> set (dedupe seen xs) \<Longrightarrow> x \<in> set xs"
  by (induction xs arbitrary: seen) (auto split: if_splits)

lemma search_related_loop_differs:
  "\<forall>h \<in> set hs. p_document_id (h_payload h) \<noteq> None \<Longrightarrow>
   x \<in> set (search_related_loop ex hs) \<Longrightarrow>
   r_source x = str ''cross_reference'' \<and> r_document_id x \<noteq> ex"
  by (induction hs) (auto simp: get_default_def split: if_splits option.splits)

lemma set_py_take: "x \<in> set (py_take n xs) \<Longrightarrow> x \<in> set xs"
  by (auto simp: py_take_def dest: in_set_takeD split: if_splits)

lemma length_py_take: "0 \<le> n \<Longrightarrow> int (length (py_take n xs)) \<le> n"
  by (simp add: py_take_def)

lemma search_related_differs:
  assumes "\<forall>v k f. \<forall>h \<in> set (search self v k f). p_document_id (h_payload h) \<noteq> None"
    and "search_related self entities doc_type ex = Inr related"
    and "x \<in> set related"
  shows "r_source x = str ''cross_reference'' \<and> r_document_id x \<noteq> ex"
proof (cases "py_not entities")
  case True
  with assms(2,3) show ?thesis by (simp add: search_related_def)
next
  case False
  with assms(2) obtain query where
    "related = search_related_loop ex
       (search self (embed_query self query) (max_cross_refs self + 1)
          (Some [str ''doc_types'' \<mapsto> PList [doc_type]]))"
    by (auto simp: search_related_def split: sum.splits)
  with assms(1,3) show ?thesis using search_related_loop_differs by blast
qed

lemma cross_refs_of_differ:
  assumes "\<forall>v k f. \<forall>h \<in> set (search self v k f). p_document_id (h_payload h) \<noteq> None"
    and "cross_refs_of self p = Inr related"
  shows "(\<forall>x \<in> set related.
            r_source x = str ''cross_reference'' \<and> r_document_id x \<noteq> r_document_id p)
         \<and> (0 \<le> max_cross_refs self \<longrightarrow> int (length related) \<le> max_cross_refs self)"
proof -
  from assms(2) consider "related = []"
    | entities doc_type found where
        "search_related self entities doc_type (r_document_id p) = Inr found"
        "related = py_take (max_cross_refs self) found"
    by (auto simp: cross_refs_of_def Let_def split: if_splits sum.splits)
  then show ?thesis
  proof cases
    case 1
    then show ?thesis by simp
  next
    case 2
    have "r_source x = str ''cross_reference'' \<and> r_document_id x \<noteq> r_document_id p"
      if "x \<in> set related" for x
    proof -
      from that 2(2) have "x \<in> set found" by (simp add: set_py_take)
      with assms(1) 2(1) show ?thesis by (rule search_related_differs)
    qed
    moreover have "0 \<le> max_cross_refs self \<longrightarrow> int (length related) \<le> max_cross_refs self"
      unfolding 2(2) by (simp add: length_py_take)
    ultimately show ?thesis by blast
  qed
qed

lemma find_cross_references_origin:
  "find_cross_references self ps = Inr crs \<Longrightarrow> x \<in> set crs \<Longrightarrow>
   \<exists>p \<in> set ps. \<exists>related. cross_refs_of self p = Inr related \<and> x \<in> set related"
proof (induction ps arbitrary: crs)
  case Nil
  then show ?case by simp
next
  case (Cons p ps)
  from Cons.prems(1) obtain related others where
    r: "cross_refs_of self p = Inr related"
    and o: "find_cross_references self ps = Inr others"
    and c: "crs = related @ others"
    by (auto split: sum.splits)
  show ?case
  proof (cases "x \<in> set related")
    case True
    with r show ?thesis by auto
  next
    case False
    with Cons.prems(2) c have "x \<in> set others" by simp
    from Cons.IH [OF o this] show ?thesis by auto
  qed
qed

lemma primary_source:
  "x \<in> set (primary_retrieve self query top_k flt) \<Longrightarrow> r_source x = str ''primary''"
  by (auto simp: primary_retrieve_def)

lemma source_tags_differ: "str ''primary'' \<noteq> str ''cross_reference''"
  by (simp add: str_def)

text \<open>
  C8. When every payload the vector store returns carries a \<^verbatim>\<open>document_id\<close> (as
  \<^verbatim>\<open>Chunk.to_payload\<close> writes it) and \<open>retrieve\<close> returns, every result tagged
  \<^verbatim>\<open>cross_reference\<close> was found by the secondary search of a primary hit whose document id
  differs from its own; and the secondary results kept for a primary hit all are tagged
  \<^verbatim>\<open>cross_reference\<close>, all differ from it in document id, and number at most
  \<^verbatim>\<open>max_cross_refs\<close> when that is not negative.
\<close>

theorem cross_references_differ:
  assumes "\<forall>v k f. \<forall>h \<in> set (search self v k f). p_document_id (h_payload h) \<noteq> None"
    and "retrieve self query top_k flt = Inr res"
  shows "(\<forall>x \<in> set res. r_source x = str ''cross_reference'' \<longrightarrow>
            (\<exists>p \<in> set (primary_retrieve self query top_k flt). \<exists>related.
               cross_refs_of self p = Inr related \<and> x \<in> set related
               \<and> r_document_id x \<noteq> r_document_id p))
         \<and> (\<forall>p \<in> set (primary_retrieve self query top_k flt). \<forall>related.
              cross_refs_of self p = Inr related \<longrightarrow>
                (\<forall>x \<in> set related.
                   r_source x = str ''cross_reference'' \<and> r_document_id x \<noteq> r_document_id p)
                \<and> (0 \<le> max_cross_refs self
                     \<longrightarrow> int (length related) \<le> max_cross_refs self))"
proof -
  let ?primary = "primary_retrieve self query top_k flt"
  from assms(2) obtain crs where
    crs: "find_cross_references self ?primary = Inr crs"
    and res: "res = dedupe {} (?primary @ crs)"
    by (auto simp: retrieve_def Let_def split: sum.splits)
  have a: "\<exists>p \<in> set ?primary. \<exists>related.
             cross_refs_of self p = Inr related \<and> x \<in> set related
             \<and> r_document_id x \<noteq> r_document_id p"
    if "x \<in> set res" "r_source x = str ''cross_reference''" for x
  proof -
    from that(1) have "x \<in> set (?primary @ crs)"
      unfolding res by (rule dedupe_member)
    moreover have "x \<notin> set ?primary"
      using that(2) primary_source [of x self query top_k flt] source_tags_differ by auto
    ultimately have "x \<in> set crs" by simp
    from find_cross_references_origin [OF crs this] obtain p related where
      p: "p \<in> set ?primary" "cross_refs_of self p = Inr related" "x \<in> set related" by blast
    from cross_refs_of_differ [OF assms(1) p(2)] p(3)
    have "r_document_id x \<noteq> r_document_id p" by blast
    with p show ?thesis by blast
  qed
  have b: "(\<forall>x \<in> set related.
              r_source x = str ''cross_reference'' \<and> r_document_id x \<noteq> r_document_id p)
           \<and> (0 \<le> max_cross_refs self \<longrightarrow> int (length related) \<le> max_cross_refs self)"
    if "cross_refs_of self p = Inr related" for p related
    using assms(1) that by (rule cross_refs_of_differ)
  from a b show ?thesis by blast
qed

lemma demo_hits_documented:
  "\<forall>v k f. \<forall>h \<in> set (search demo_retriever v k f). p_document_id (h_payload h) \<noteq> None"
  by (simp add: demo_retriever_def mk_hit_def split: option.splits)

lemma demo_retrieve_sources:
  "\<exists>res. retrieve demo_retriever (str ''q'') 5 None = Inr res
     \<and> map (\<lambda>x. (r_chunk_id x, r_source x, r_document_id x)) res
       = [(str ''c1'', str ''primary'', str ''d1''), (str ''c2'', str ''primary'', str ''d2''),
          (str ''c3'', str ''cross_reference'', str ''d3'')]"
  by (simp add: retrieve_def primary_retrieve_def demo_retriever_def mk_hit_def cross_refs_of_def
      search_related_def get_default_def payload_metadata_def str_def py_take_def restrict_map_def)

theorem cross_references_differ_witness:
  "\<exists>res x. retrieve demo_retriever (str ''q'') 5 None = Inr res
     \<and> x \<in> set res \<and> r_chunk_id x = str ''c3'' \<and> r_source x = str ''cross_reference''
     \<and> (\<exists>p \<in> set (primary_retrieve demo_retriever (str ''q'') 5 None). \<exists>related.
           cross_refs_of demo_retriever p = Inr related \<and> x \<in> set related
           \<and> r_document_id x \<noteq> r_document_id p)"
proof -
  from demo_retrieve_sources obtain res where
    run: "retrieve demo_retriever (str ''q'') 5 None = Inr res"
    and m: "map (\<lambda>x. (r_chunk_id x, r_source x, r_document_id x)) res
       = [(str ''c1'', str ''primary'', str ''d1''), (str ''c2'', str ''primary'', str ''d2''),
          (str ''c3'', str ''cross_reference'', str ''d3'')]"
    by (elim exE conjE)
  from m obtain a b x where
    shape: "res = [a, b, x]" and cid: "r_chunk_id x = str ''c3''"
    and src: "r_source x = str ''cross_reference''"
    unfolding map_eq_Cons_conv by (elim exE conjE) simp
  have mem: "x \<in> set res" unfolding shape by simp
  note origin = cross_references_differ [OF demo_hits_documented run, THEN conjunct1,
      rule_format, OF mem src]
  show ?thesis
  proof (intro exI conjI)
    show "retrieve demo_retriever (str ''q'') 5 None = Inr res" by (rule run)
    show "x \<in> set res" by (rule mem)
    show "r_chunk_id x = str ''c3''" by (rule cid)
    show "r_source x = str ''cross_reference''" by (rule src)
    show "\<exists>p \<in> set (primary_retrieve demo_retriever (str ''q'') 5 None). \<exists>related.
           cross_refs_of demo_retriever p = Inr related \<and> x \<in> set related
           \<and> r_document_id x \<noteq> r_document_id p" by (rule origin)
  qed
qed



section \<open>Reciprocal rank fusion\<close>

lemma map_of_dict_set: "map_of (dict_set k v d) = (map_of d)(k \<mapsto> v)"
  by (induction d) (auto simp: fun_eq_iff)

lemma keys_dict_set: "fst ` set (dict_set k v d) = insert k (fst ` set d)"
  by (induction d) auto

lemma distinct_dict_set: "distinct (map fst d) \<Longrightarrow> distinct (map fst (dict_set k v d))"
  by (induction d) (auto simp: keys_dict_set)

lemma values_dict_set: "(a, b) \<in> set (dict_set k v d) \<Longrightarrow> (a, b) = (k, v) \<or> (a, b) \<in> set d"
  by (induction d) (auto split: if_splits)

text \<open>What the two loops compute, from any starting state and rank.\<close>

definition fusion_inv ::
  "real \<Rightarrow> int \<Rightarrow> nat \<Rightarrow> RetrievalResult list \<Rightarrow>
   (pystr \<times> real) list \<times> (pystr \<times> RetrievalResult) list \<Rightarrow>
   (pystr \<times> real) list \<times> (pystr \<times> RetrievalResult) list \<Rightarrow> bool" where
  "fusion_inv w k n xs st st' \<longleftrightarrow>
     (\<forall>c. get_default (map_of (fst st') c) 0 = get_default (map_of (fst st) c) 0 + rrf_sum w k n xs c)
     \<and> fst ` set (fst st') = fst ` set (fst st) \<union> r_chunk_id ` set xs
     \<and> fst ` set (snd st') = fst ` set (snd st) \<union> r_chunk_id ` set xs
     \<and> (distinct (map fst (fst st)) \<longrightarrow> distinct (map fst (fst st')))
     \<and> ((\<forall>kr \<in> set (snd st). r_chunk_id (snd kr) = fst kr)
          \<longrightarrow> (\<forall>kr \<in> set (snd st'). r_chunk_id (snd kr) = fst kr))"

lemma fusion_inv_step:
  assumes "fusion_inv w k (Suc n) xs st1 st'"
    and "fst st1 = dict_set (r_chunk_id x)
           (get_default (map_of (fst st) (r_chunk_id x)) 0 + w / real_of_int (k + int n + 1)) (fst st)"
    and "snd st1 = dict_set (r_chunk_id x) x (snd st)
         \<or> (snd st1 = snd st \<and> map_of (snd st) (r_chunk_id x) \<noteq> None)"
  shows "fusion_inv w k n (x # xs) st st'"
proof -
  have sc: "\<forall>c. get_default (map_of (fst st') c) 0
               = get_default (map_of (fst st) c) 0 + rrf_sum w k n (x # xs) c"
    using assms(1,2) by (auto simp: fusion_inv_def map_of_dict_set get_default_def)
  have k1: "fst ` set (fst st') = fst ` set (fst st) \<union> r_chunk_id ` set (x # xs)"
    using assms(1,2) by (auto simp: fusion_inv_def keys_dict_set)
  have "fst ` set (snd st1) = insert (r_chunk_id x) (fst ` set (snd st))"
    using assms(3)
  proof
    assume "snd st1 = dict_set (r_chunk_id x) x (snd st)"
    then show ?thesis by (simp add: keys_dict_set)
  next
    assume a: "snd st1 = snd st \<and> map_of (snd st) (r_chunk_id x) \<noteq> None"
    then have "r_chunk_id x \<in> fst ` set (snd st)"
      by (metis map_of_eq_None_iff)
    with a show ?thesis by auto
  qed
  then have k2: "fst ` set (snd st') = fst ` set (snd st) \<union> r_chunk_id ` set (x # xs)"
    using assms(1) by (auto simp: fusion_inv_def)
  have d: "distinct (map fst (fst st)) \<longrightarrow> distinct (map fst (fst st'))"
    using assms(1,2) by (simp add: fusion_inv_def distinct_dict_set)
  have "(\<forall>kr \<in> set (snd st). r_chunk_id (snd kr) = fst kr)
        \<longrightarrow> (\<forall>kr \<in> set (snd st1). r_chunk_id (snd kr) = fst kr)"
    using assms(3) values_dict_set [of _ _ "r_chunk_id x" x "snd st"] by fastforce
  then have m: "(\<forall>kr \<in> set (snd st). r_chunk_id (snd kr) = fst kr)
        \<longrightarrow> (\<forall>kr \<in> set (snd st'). r_chunk_id (snd kr) = fst kr)"
    using assms(1) by (simp add: fusion_inv_def)
  from sc k1 k2 d m show ?thesis unfolding fusion_inv_def by blast
qed

lemma process_dense_inv:
  assumes "0 \<le> rrf_k self"
  shows "\<exists>st'. process_dense self n xs st = Inr st'
           \<and> fusion_inv (dense_weight self) (rrf_k self) n xs st st'"
proof (induction xs arbitrary: n st)
  case Nil
  show ?case by (simp add: fusion_inv_def)
next
  case (Cons x xs)
  let ?st1 = "(dict_set (r_chunk_id x)
                 (get_default (map_of (fst st) (r_chunk_id x)) 0
                  + dense_weight self / real_of_int (rrf_k self + int n + 1)) (fst st),
               dict_set (r_chunk_id x) x (snd st))"
  from Cons.IH [of "Suc n" ?st1] obtain st' where
    run: "process_dense self (Suc n) xs ?st1 = Inr st'"
    and inv: "fusion_inv (dense_weight self) (rrf_k self) (Suc n) xs ?st1 st'" by blast
  have nz: "rrf_k self + int n + 1 \<noteq> 0" using assms by linarith
  have "process_dense self n (x # xs) st = Inr st'"
    using run nz by (simp add: Let_def)
  moreover have "fusion_inv (dense_weight self) (rrf_k self) n (x # xs) st st'"
    by (rule fusion_inv_step [OF inv]) simp_all
  ultimately show ?case by blast
qed

lemma process_sparse_inv:
  assumes "0 \<le> rrf_k self"
  shows "\<exists>st'. process_sparse self n xs st = Inr st'
           \<and> fusion_inv (sparse_weight self) (rrf_k self) n xs st st'"
proof (induction xs arbitrary: n st)
  case Nil
  show ?case by (simp add: fusion_inv_def)
next
  case (Cons x xs)
  let ?st1 = "(dict_set (r_chunk_id x)
                 (get_default (map_of (fst st) (r_chunk_id x)) 0
                  + sparse_weight self / real_of_int (rrf_k self + int n + 1)) (fst st),
               if map_of (snd st) (r_chunk_id x) = None
               then dict_set (r_chunk_id x) x (snd st) else snd st)"
  from Cons.IH [of "Suc n" ?st1] obtain st' where
    run: "process_sparse self (Suc n) xs ?st1 = Inr st'"
    and inv: "fusion_inv (sparse_weight self) (rrf_k self) (Suc n) xs ?st1 st'" by blast
  have nz: "rrf_k self + int n + 1 \<noteq> 0" using assms by linarith
  have "process_sparse self n (x # xs) st = Inr st'"
    using run nz by (simp add: Let_def)
  moreover have "fusion_inv (sparse_weight self) (rrf_k self) n (x # xs) st st'"
    by (rule fusion_inv_step [OF inv]) auto
  ultimately show ?case by blast
qed

lemma build_combined_ok:
  assumes "fst ` set items \<subseteq> fst ` set result_map"
    and "\<forall>kr \<in> set result_map. r_chunk_id (snd kr) = fst kr"
  shows "\<exists>res. build_combined result_map items = Inr res
           \<and> map r_score res = map snd items
           \<and> map r_chunk_id res = map fst items
           \<and> (\<forall>r \<in> set res. r_source r = str ''hybrid'')"
  using assms(1)
proof (induction items)
  case Nil
  show ?case by simp
next
  case (Cons kv items)
  then obtain res where res: "build_combined result_map items = Inr res"
    "map r_score res = map snd items" "map r_chunk_id res = map fst items"
    "\<forall>r \<in> set res. r_source r = str ''hybrid''" by auto
  from Cons.prems have "fst kv \<in> fst ` set result_map" by simp
  then obtain result where look: "map_of result_map (fst kv) = Some result"
    by (metis map_of_eq_None_iff not_Some_eq)
  then have "(fst kv, result) \<in> set result_map" by (rule map_of_SomeD)
  with assms(2) have "r_chunk_id result = fst kv" by fastforce
  with res look show ?case by simp
qed

lemma sorted_ids_props:
  "set (sorted_ids sc) = set sc" "sorted_wrt (\<ge>) (map snd (sorted_ids sc))"
  "distinct (map fst sc) \<Longrightarrow> distinct (map fst (sorted_ids sc))"
proof -
  show "set (sorted_ids sc) = set sc" by (simp add: sorted_ids_def)
  have "sorted (map (\<lambda>kv. - snd kv) (sorted_ids sc))"
    unfolding sorted_ids_def by (rule sorted_sort_key)
  then show "sorted_wrt (\<ge>) (map snd (sorted_ids sc))"
    by (simp add: sorted_wrt_map)
  assume "distinct (map fst sc)"
  then show "distinct (map fst (sorted_ids sc))"
    by (simp add: distinct_map sorted_ids_def)
qed

text \<open>In a list without a repeated chunk id, the sum has the one term the specification names.\<close>

lemma rrf_sum_absent: "c \<notin> r_chunk_id ` set xs \<Longrightarrow> rrf_sum w k n xs c = 0"
  by (induction xs arbitrary: n) auto

lemma rrf_sum_single:
  "distinct (map r_chunk_id xs) \<Longrightarrow>
   rrf_sum w k n xs c =
     (case rank_in_list xs c of None \<Rightarrow> 0 | Some rank \<Rightarrow> w / real_of_int (k + int (n + rank) + 1))"
proof (induction xs arbitrary: n)
  case Nil
  show ?case by simp
next
  case (Cons x xs)
  show ?case
  proof (cases "r_chunk_id x = c")
    case True
    with Cons.prems have "c \<notin> r_chunk_id ` set xs" by auto
    with True show ?thesis by (simp add: rrf_sum_absent)
  next
    case False
    with Cons show ?thesis by (simp split: option.splits)
  qed
qed

lemma rrf_sum_spec:
  "distinct (map r_chunk_id xs) \<Longrightarrow> rrf_sum w k 0 xs c = spec_contribution w k xs c"
  by (simp add: rrf_sum_single spec_contribution_def split: option.splits)

text \<open>
  What the fusion computes for any two lists, with \<^verbatim>\<open>rrf_k\<close> not negative: one result per
  chunk id, tagged \<^verbatim>\<open>hybrid\<close>, scored by the terms the two loops add, in non-increasing
  order of score.
\<close>

lemma fusion_sums_sorted:
  assumes "0 \<le> rrf_k self"
  shows "\<exists>res. reciprocal_rank_fusion self dense_results sparse_results = Inr res
           \<and> r_chunk_id ` set res = r_chunk_id ` (set dense_results \<union> set sparse_results)
           \<and> distinct (map r_chunk_id res)
           \<and> (\<forall>r \<in> set res.
                 r_source r = str ''hybrid''
                 \<and> r_score r =
                     rrf_sum (dense_weight self) (rrf_k self) 0 dense_results (r_chunk_id r)
                     + rrf_sum (sparse_weight self) (rrf_k self) 0 sparse_results (r_chunk_id r))
           \<and> sorted_wrt (\<ge>) (map r_score res)"
proof -
  let ?dw = "dense_weight self" and ?sw = "sparse_weight self" and ?k = "rrf_k self"
  obtain st where d: "process_dense self 0 dense_results ([], []) = Inr st"
    and dinv: "fusion_inv ?dw ?k 0 dense_results ([], []) st"
    using process_dense_inv [OF assms] by blast
  obtain st' where s: "process_sparse self 0 sparse_results st = Inr st'"
    and sinv: "fusion_inv ?sw ?k 0 sparse_results st st'"
    using process_sparse_inv [OF assms] by blast
  have score: "get_default (map_of (fst st') c) 0
                 = rrf_sum ?dw ?k 0 dense_results c + rrf_sum ?sw ?k 0 sparse_results c" for c
    using dinv sinv by (simp add: fusion_inv_def get_default_def)
  have keys: "fst ` set (fst st') = r_chunk_id ` (set dense_results \<union> set sparse_results)"
    using dinv sinv by (auto simp: fusion_inv_def)
  have rkeys: "fst ` set (snd st') = r_chunk_id ` (set dense_results \<union> set sparse_results)"
    using dinv sinv by (auto simp: fusion_inv_def)
  have dist: "distinct (map fst (fst st'))"
    using dinv sinv by (simp add: fusion_inv_def)
  have own: "\<forall>kr \<in> set (snd st'). r_chunk_id (snd kr) = fst kr"
    using dinv sinv by (simp add: fusion_inv_def)
  have "fst ` set (sorted_ids (fst st')) \<subseteq> fst ` set (snd st')"
    using keys rkeys by (simp add: sorted_ids_props(1))
  from build_combined_ok [OF this own] obtain res where
    res: "build_combined (snd st') (sorted_ids (fst st')) = Inr res"
    and sc: "map r_score res = map snd (sorted_ids (fst st'))"
    and ids: "map r_chunk_id res = map fst (sorted_ids (fst st'))"
    and src: "\<forall>r \<in> set res. r_source r = str ''hybrid''" by blast
  have run: "reciprocal_rank_fusion self dense_results sparse_results = Inr res"
    using d s res by (simp add: reciprocal_rank_fusion_def)
  have "set (map r_chunk_id res) = fst ` set (fst st')"
    unfolding ids by (simp add: sorted_ids_props(1))
  then have idset: "r_chunk_id ` set res = r_chunk_id ` (set dense_results \<union> set sparse_results)"
    using keys by simp
  have distinct_ids: "distinct (map r_chunk_id res)"
    unfolding ids using dist by (rule sorted_ids_props(3))
  have sorted: "sorted_wrt (\<ge>) (map r_score res)"
    unfolding sc by (rule sorted_ids_props(2))
  have val: "r_score r = rrf_sum ?dw ?k 0 dense_results (r_chunk_id r)
                       + rrf_sum ?sw ?k 0 sparse_results (r_chunk_id r)"
    if "r \<in> set res" for r
  proof -
    from that obtain i where i: "i < length res" "res ! i = r"
      by (auto simp: in_set_conv_nth)
    have len: "length (sorted_ids (fst st')) = length res"
      using sc by (metis length_map)
    have "r_score r = snd (sorted_ids (fst st') ! i)"
      using i sc len by (metis nth_map)
    moreover have "r_chunk_id r = fst (sorted_ids (fst st') ! i)"
      using i ids len by (metis nth_map)
    moreover have "sorted_ids (fst st') ! i \<in> set (fst st')"
      using i len by (metis nth_mem sorted_ids_props(1))
    ultimately have "(r_chunk_id r, r_score r) \<in> set (fst st')" by simp
    with dist have "map_of (fst st') (r_chunk_id r) = Some (r_score r)" by simp
    then have "get_default (map_of (fst st') (r_chunk_id r)) 0 = r_score r"
      by (simp add: get_default_def)
    with score show ?thesis by simp
  qed
  from run idset distinct_ids src val sorted show ?thesis by blast
qed

text \<open>
  C4. With \<^verbatim>\<open>rrf_k\<close> not negative and no chunk id repeated within a list, the fusion of a
  dense and a sparse list, either of which may be empty, returns one result per chunk id
  of the two lists, each tagged \<^verbatim>\<open>hybrid\<close>; its score is the dense weight divided by
  \<^verbatim>\<open>rrf_k + rank + 1\<close> at the chunk's 0-based position in the dense list plus the sparse
  weight divided likewise at its position in the sparse list, a list that lacks the chunk
  contributing 0; and the scores are non-increasing along the result.
\<close>

theorem fusion_scores_sorted:
  assumes "0 \<le> rrf_k self"
    and "distinct (map r_chunk_id dense_results)"
    and "distinct (map r_chunk_id sparse_results)"
  shows "\<exists>res. reciprocal_rank_fusion self dense_results sparse_results = Inr res
           \<and> r_chunk_id ` set res = r_chunk_id ` (set dense_results \<union> set sparse_results)
           \<and> distinct (map r_chunk_id res)
           \<and> (\<forall>r \<in> set res.
                 r_source r = str ''hybrid''
                 \<and> r_score r =
                     spec_contribution (dense_weight self) (rrf_k self) dense_results (r_chunk_id r)
                     + spec_contribution (sparse_weight self) (rrf_k self) sparse_results
                         (r_chunk_id r))
           \<and> sorted_wrt (\<ge>) (map r_score res)"
proof -
  from fusion_sums_sorted [OF assms(1), of dense_results sparse_results] obtain res where
    run: "reciprocal_rank_fusion self dense_results sparse_results = Inr res"
    and ids: "r_chunk_id ` set res = r_chunk_id ` (set dense_results \<union> set sparse_results)"
    and dist: "distinct (map r_chunk_id res)"
    and val: "\<forall>r \<in> set res.
                 r_source r = str ''hybrid''
                 \<and> r_score r =
                     rrf_sum (dense_weight self) (rrf_k self) 0 dense_results (r_chunk_id r)
                     + rrf_sum (sparse_weight self) (rrf_k self) 0 sparse_results (r_chunk_id r)"
    and sorted: "sorted_wrt (\<ge>) (map r_score res)"
    by (elim exE conjE)
  from val have "\<forall>r \<in> set res.
                 r_source r = str ''hybrid''
                 \<and> r_score r =
                     spec_contribution (dense_weight self) (rrf_k self) dense_results (r_chunk_id r)
                     + spec_contribution (sparse_weight self) (rrf_k self) sparse_results
                         (r_chunk_id r)"
    by (simp add: rrf_sum_spec [OF assms(2)] rrf_sum_spec [OF assms(3)])
  with run ids dist sorted show ?thesis by (intro exI [of _ res]) simp
qed

lemma default_hybrid_fusion:
  "map_sum id (map (\<lambda>r. (r_chunk_id r, r_score r)))
     (reciprocal_rank_fusion default_hybrid
        [plain_result ''a'', plain_result ''b''] [plain_result ''b'', plain_result ''c''])
   = Inr [(str ''b'', 613 / 37820), (str ''a'', 7 / 610), (str ''c'', 3 / 620)]"
  by (simp add: reciprocal_rank_fusion_def default_hybrid_def plain_result_def sorted_ids_def
      get_default_def str_def Let_def)

theorem fusion_scores_sorted_witness:
  "\<exists>res. reciprocal_rank_fusion default_hybrid
            [plain_result ''a'', plain_result ''b''] [plain_result ''b'', plain_result ''c'']
          = Inr res
     \<and> map r_chunk_id res = [str ''b'', str ''a'', str ''c'']
     \<and> map r_score res = [613 / 37820, 7 / 610, 3 / 620]
     \<and> sorted_wrt (\<ge>) (map r_score res)"
proof -
  have k: "0 \<le> rrf_k default_hybrid" by (simp add: default_hybrid_def)
  have d1: "distinct (map r_chunk_id [plain_result ''a'', plain_result ''b''])"
    by (simp add: plain_result_def str_def)
  have d2: "distinct (map r_chunk_id [plain_result ''b'', plain_result ''c''])"
    by (simp add: plain_result_def str_def)
  from fusion_scores_sorted [OF k d1 d2]
  obtain res where
    res: "reciprocal_rank_fusion default_hybrid
            [plain_result ''a'', plain_result ''b''] [plain_result ''b'', plain_result ''c'']
          = Inr res"
    and sorted: "sorted_wrt (\<ge>) (map r_score res)"
    by (elim exE conjE)
  from default_hybrid_fusion res
  have "map (\<lambda>r. (r_chunk_id r, r_score r)) res
        = [(str ''b'', 613 / 37820), (str ''a'', 7 / 610), (str ''c'', 3 / 620)]" by simp
  then have "map r_chunk_id res = [str ''b'', str ''a'', str ''c'']
             \<and> map r_score res = [613 / 37820, 7 / 610, 3 / 620]"
    by (auto simp: map_eq_Cons_conv)
  with res sorted show ?thesis by (intro exI [of _ res]) simp
qed

section \<open>Heading hierarchy of the Markdown parser\<close>

lemma heading_match_level: "heading_match line = Some (level, g) \<Longrightarrow> 1 \<le> level \<and> level \<le> 6"
  by (auto simp: heading_match_def Let_def split: if_splits)

lemma pop_hierarchy_take: "1 \<le> level \<Longrightarrow> pop_hierarchy level h = Inr (take (level - 1) h)"
proof (induction level h rule: pop_hierarchy.induct)
  case (1 level h)
  show ?case
  proof (cases "level \<le> length h")
    case True
    with "1.prems" have ne: "h \<noteq> []" by auto
    from True 1 ne have "pop_hierarchy level (butlast h) = Inr (take (level - 1) (butlast h))"
      by simp
    moreover have "take (level - 1) (butlast h) = take (level - 1) h"
      using True "1.prems" by (simp add: take_butlast)
    ultimately show ?thesis using True ne by (simp add: pop_hierarchy.simps [of level h])
  next
    case False
    then show ?thesis by (simp add: pop_hierarchy.simps [of level h])
  qed
qed

lemma create_sections_loop_hierarchy:
  "s \<in> set (fst (create_sections_loop (detect_content_type ts ls) heading level hierarchy
                    code_idx blocks body))
   \<Longrightarrow> section_hierarchy s = hierarchy \<and> content_type s \<noteq> HEADING"
proof (induction blocks arbitrary: code_idx body)
  case Nil
  then show ?case by simp
next
  case (Cons block blocks)
  then show ?case
    by (auto simp: Let_def detect_content_type_def split: option.splits if_splits prod.splits)
qed

lemma create_sections_hierarchy:
  "s \<in> set (create_sections_from_content (detect_content_type ts ls) body heading level
               hierarchy code_blocks)
   \<Longrightarrow> section_hierarchy s = hierarchy \<and> content_type s \<noteq> HEADING"
  using create_sections_loop_hierarchy [of s ts ls heading level hierarchy 0 code_blocks body]
  by (auto simp: create_sections_from_content_def Let_def detect_content_type_def
      split: if_splits)

lemma attached_append:
  "attached cur (a @ b) \<longleftrightarrow> attached cur a \<and> attached (last_hierarchy cur a) b"
  by (induction a arbitrary: cur) auto

lemma last_hierarchy_append:
  "last_hierarchy cur (a @ b) = last_hierarchy (last_hierarchy cur a) b"
  by (induction a arbitrary: cur) auto

lemma attached_plain:
  "\<forall>s \<in> set ss. section_hierarchy s = cur \<and> content_type s \<noteq> HEADING
   \<Longrightarrow> attached cur ss \<and> last_hierarchy cur ss = cur"
  by (induction ss) auto

lemma filter_plain:
  "\<forall>s \<in> set ss. content_type s \<noteq> HEADING \<Longrightarrow> filter (\<lambda>s. content_type s = HEADING) ss = []"
  by (induction ss) auto

lemma save_previous_hierarchy:
  "s \<in> set (save_previous (detect_content_type ts ls) cb st)
   \<Longrightarrow> section_hierarchy s = st_current_hierarchy st \<and> content_type s \<noteq> HEADING"
  using create_sections_hierarchy by (auto simp: save_previous_def Let_def split: if_splits)

text \<open>The loop over the lines never raises, and keeps the sections attached to the stack.\<close>

lemma parse_lines_inv:
  assumes "attached [] (st_sections st)"
    and "last_hierarchy [] (st_sections st) = st_current_hierarchy st"
  shows "\<exists>st'. parse_lines (detect_content_type ts ls) cb st lines = Inr st'
           \<and> attached [] (st_sections st')
           \<and> last_hierarchy [] (st_sections st') = st_current_hierarchy st'
           \<and> map section_hierarchy (filter (\<lambda>s. content_type s = HEADING) (st_sections st'))
               = map section_hierarchy (filter (\<lambda>s. content_type s = HEADING) (st_sections st))
                 @ code_stacks (st_current_hierarchy st)
                     (List.map_filter
                        (\<lambda>line. map_option (\<lambda>(level, group2). (level, strip group2))
                                  (heading_match line)) lines)"
  using assms
proof (induction lines arbitrary: st)
  case Nil
  then show ?case by (simp add: map_filter_simps)
next
  case (Cons line lines)
  show ?case
  proof (cases "heading_match line")
    case None
    let ?st1 = "st\<lparr> st_current_section_lines := st_current_section_lines st @ [line] \<rparr>"
    have "attached [] (st_sections ?st1)"
      "last_hierarchy [] (st_sections ?st1) = st_current_hierarchy ?st1"
      using Cons.prems by simp_all
    from Cons.IH [OF this] None show ?thesis by (simp add: map_filter_simps)
  next
    case (Some m)
    obtain level group2 where m: "m = (level, group2)" by (cases m)
    with Some have lv: "1 \<le> level" using heading_match_level by blast
    let ?H = "take (level - 1) (st_current_hierarchy st) @ [strip group2]"
    let ?saved = "save_previous (detect_content_type ts ls) cb st"
    let ?hsec = "\<lparr> content = line, content_type = HEADING,
                    heading_level = Some (int level), heading_text = Some (strip group2),
                    section_hierarchy = ?H, metadata = Map.empty,
                    page_number = None, code_language = None \<rparr>"
    let ?st1 = "\<lparr> st_sections = st_sections st @ ?saved @ [?hsec],
                   st_current_hierarchy = ?H,
                   st_current_section_lines = [],
                   st_current_heading = Some (strip group2),
                   st_current_level = Some (int level) \<rparr>"
    have step: "parse_lines (detect_content_type ts ls) cb st (line # lines)
                = parse_lines (detect_content_type ts ls) cb ?st1 lines"
      using Some m lv by (simp add: pop_hierarchy_take Let_def)
    have plain: "\<forall>s \<in> set ?saved. section_hierarchy s = st_current_hierarchy st
                   \<and> content_type s \<noteq> HEADING"
      using save_previous_hierarchy by blast
    have a1: "attached [] (st_sections ?st1)"
      using Cons.prems attached_plain [OF plain]
      by (simp add: attached_append last_hierarchy_append)
    have a2: "last_hierarchy [] (st_sections ?st1) = st_current_hierarchy ?st1"
      by (simp add: last_hierarchy_append)
    have a3: "map section_hierarchy (filter (\<lambda>s. content_type s = HEADING) (st_sections ?st1))
              = map section_hierarchy (filter (\<lambda>s. content_type s = HEADING) (st_sections st))
                @ [?H]"
      using plain by (simp add: filter_plain)
    from Cons.IH [OF a1 a2] obtain st' where
      run: "parse_lines (detect_content_type ts ls) cb ?st1 lines = Inr st'"
      and b1: "attached [] (st_sections st')"
      and b2: "last_hierarchy [] (st_sections st') = st_current_hierarchy st'"
      and b3: "map section_hierarchy (filter (\<lambda>s. content_type s = HEADING) (st_sections st'))
               = map section_hierarchy (filter (\<lambda>s. content_type s = HEADING) (st_sections ?st1))
                 @ code_stacks (st_current_hierarchy ?st1)
                     (List.map_filter
                        (\<lambda>line. map_option (\<lambda>(level, group2). (level, strip group2))
                                  (heading_match line)) lines)"
      by blast
    have "map section_hierarchy (filter (\<lambda>s. content_type s = HEADING) (st_sections st'))
          = map section_hierarchy (filter (\<lambda>s. content_type s = HEADING) (st_sections st))
            @ code_stacks (st_current_hierarchy st)
                (List.map_filter
                   (\<lambda>line. map_option (\<lambda>(level, group2). (level, strip group2))
                             (heading_match line)) (line # lines))"
      unfolding b3 a3 using Some m by (simp add: map_filter_simps)
    with step run b1 b2 show ?thesis by simp
  qed
qed

text \<open>Where no level is skipped, the code's stacks are those of the specification.\<close>

lemma spec_pop_take:
  "map fst stack = [1..<Suc (length stack)] \<Longrightarrow> spec_pop level stack = take (level - 1) stack"
proof (induction level stack rule: spec_pop.induct)
  case (1 level stack)
  show ?case
  proof (cases "stack \<noteq> [] \<and> level \<le> fst (last stack)")
    case True
    then have ne: "stack \<noteq> []" by simp
    have "fst (last stack) = last (map fst stack)" using ne by (simp add: last_map)
    also have "\<dots> = length stack"
      using "1.prems" ne by (simp del: upt_Suc add: last_upt)
    finally have fl: "fst (last stack) = length stack" .
    have "map fst (butlast stack) = butlast [1..<Suc (length stack)]"
      using "1.prems" by (simp add: map_butlast)
    also have "\<dots> = [1..<Suc (length (butlast stack))]" using ne by (simp add: Suc_diff_Suc)
    finally have "spec_pop level (butlast stack) = take (level - 1) (butlast stack)"
      using "1.IH" True by simp
    moreover have "level - 1 < length stack" using True fl ne by (cases stack) auto
    then have "take (level - 1) (butlast stack) = take (level - 1) stack"
      by (rule take_butlast)
    ultimately show ?thesis using True by (simp add: spec_pop.simps [of level stack])
  next
    case False
    have "length stack \<le> level - 1"
    proof (cases "stack = []")
      case True
      then show ?thesis by simp
    next
      case ne: False
      have "fst (last stack) = last (map fst stack)" using ne by (simp add: last_map)
      also have "\<dots> = length stack"
        using "1.prems" ne by (simp del: upt_Suc add: last_upt)
      finally show ?thesis using False ne by simp
    qed
    with False show ?thesis by (auto simp: spec_pop.simps [of level stack])
  qed
qed

lemma code_stacks_spec:
  "map fst stack = [1..<Suc (length stack)] \<Longrightarrow> no_skip (length stack) hs
   \<Longrightarrow> code_stacks (map snd stack) hs = map (map snd) (spec_stacks stack hs)"
proof (induction hs arbitrary: stack)
  case Nil
  show ?case by simp
next
  case (Cons h hs)
  obtain level title where h: "h = (level, title)" by (cases h)
  with Cons.prems have lv: "1 \<le> level" "level \<le> length stack + 1" and rest: "no_skip level hs"
    by simp_all
  let ?stack = "take (level - 1) stack @ [(level, title)]"
  have pop: "spec_pop level stack = take (level - 1) stack"
    using Cons.prems(1) by (rule spec_pop_take)
  have len: "length ?stack = level" using lv by simp
  have "map fst ?stack = take (level - 1) (map fst stack) @ [level]"
    by (simp add: take_map)
  also have "\<dots> = take (level - 1) [1..<Suc (length stack)] @ [level]"
    using Cons.prems(1) by (simp del: upt_Suc)
  also have "take (level - 1) [1..<Suc (length stack)] = [1..<1 + (level - 1)]"
    using lv by (intro take_upt) simp
  also have "[1..<1 + (level - 1)] @ [level] = [1..<Suc level]" using lv by simp
  finally have inv: "map fst ?stack = [1..<Suc (length ?stack)]" using len by simp
  from rest len have "no_skip (length ?stack) hs" by simp
  from Cons.IH [OF inv this]
  have "code_stacks (map snd ?stack) hs = map (map snd) (spec_stacks ?stack hs)" .
  then show ?case using h pop by (simp add: take_map)
qed

text \<open>
  What the loop computes. The parser never raises on the heading stack. On a heading of
  level \<open>L\<close> it pops while the stack is at least \<open>L\<close> deep, so it keeps the first \<open>L - 1\<close>
  entries whatever their levels, and pushes the heading text; the heading sections carry
  these stacks in order, and every other section carries the stack of the nearest heading
  section before it. Where no heading is more than one level deeper than the stack it
  meets, these are the stacks obtained by popping the entries whose heading level is at
  least \<open>L\<close>; the two differ only after a skipped level.
\<close>

lemma parse_content_hierarchies:
  "\<exists>secs. parse_content (detect_content_type ts ls) cb body = Inr secs
     \<and> map section_hierarchy (filter (\<lambda>s. content_type s = HEADING) secs)
         = code_stacks [] (headings_of body)
     \<and> attached [] secs
     \<and> (no_skip 0 (headings_of body)
          \<longrightarrow> code_stacks [] (headings_of body) = map (map snd) (spec_stacks [] (headings_of body)))"
proof -
  let ?st0 = "\<lparr> st_sections = [], st_current_hierarchy = [], st_current_section_lines = [],
                 st_current_heading = None, st_current_level = None \<rparr>"
  have "attached [] (st_sections ?st0)"
    "last_hierarchy [] (st_sections ?st0) = st_current_hierarchy ?st0" by simp_all
  from parse_lines_inv [OF this, of ts ls cb "split_char 10 body"] obtain st' where
    run: "parse_lines (detect_content_type ts ls) cb ?st0 (split_char 10 body) = Inr st'"
    and b1: "attached [] (st_sections st')"
    and b2: "last_hierarchy [] (st_sections st') = st_current_hierarchy st'"
    and b3: "map section_hierarchy (filter (\<lambda>s. content_type s = HEADING) (st_sections st'))
             = code_stacks [] (headings_of body)"
    by (auto simp: headings_of_def)
  let ?tail = "if st_current_section_lines st' \<noteq> [] then
                 (let section_content = strip (join [10] (st_current_section_lines st'))
                  in if section_content \<noteq> [] then
                       create_sections_from_content (detect_content_type ts ls) section_content
                         (st_current_heading st') (st_current_level st')
                         (st_current_hierarchy st') cb
                     else [])
               else []"
  have res: "parse_content (detect_content_type ts ls) cb body = Inr (st_sections st' @ ?tail)"
    using run by (simp add: parse_content_def)
  have plain: "\<forall>s \<in> set ?tail. section_hierarchy s = st_current_hierarchy st'
                 \<and> content_type s \<noteq> HEADING"
    using create_sections_hierarchy by (auto simp: Let_def split: if_splits)
  have c1: "attached [] (st_sections st' @ ?tail)"
    using b1 b2 attached_plain [OF plain] by (simp add: attached_append)
  have c2: "map section_hierarchy (filter (\<lambda>s. content_type s = HEADING) (st_sections st' @ ?tail))
            = code_stacks [] (headings_of body)"
    using b3 filter_plain [of ?tail] plain by simp
  have c3: "no_skip 0 (headings_of body)
            \<longrightarrow> code_stacks [] (headings_of body) = map (map snd) (spec_stacks [] (headings_of body))"
    using code_stacks_spec [of "[]" "headings_of body"] by simp
  from res c1 c2 c3 show ?thesis by blast
qed

text \<open>The equations that evaluate the parser on a given text.\<close>

lemmas parser_eval = parse_content_def heading_match_def is_space_def strip_def save_previous_def
  create_sections_from_content_def pop_hierarchy.simps spec_pop.simps str_def Let_def
  headings_of_def map_filter_simps plain_detect_def detect_content_type_def
  nested_text_def deep_start_text_def skipped_level_text_def

lemma nested_text_parse:
  "map_sum id (map (\<lambda>s. (content_type s, section_hierarchy s)))
     (parse_content plain_detect [] nested_text)
   = Inr [(HEADING, [str ''A'']), (HEADING, [str ''A'', str ''B'']),
          (TEXT, [str ''A'', str ''B'']), (HEADING, [str ''C''])]"
  by (simp add: parser_eval)

lemma nested_text_no_skip: "no_skip 0 (headings_of nested_text)"
  by (simp add: parser_eval)

text \<open>
  C3. After a skipped level the code leaves entries of level at least \<open>L\<close> on the stack.
  On a level-1 heading followed by two level-3 headings the stack is two deep at the
  second of them, the loop \<^verbatim>\<open>while len(current_hierarchy) >= level\<close> pops nothing, and the
  heading is filed under its sibling; popping the entries of level at least 3 files it
  under the level-1 heading. On a document that starts at level 3 and goes on at level 2
  the level-2 heading is filed under the level-3 heading.
\<close>

theorem heading_skipped_level_divergence:
  "map_sum id (map section_hierarchy) (parse_content plain_detect [] skipped_level_text)
   = Inr [[str ''A''], [str ''A'', str ''B''], [str ''A'', str ''B'', str ''C'']]
   \<and> map (map snd) (spec_stacks [] (headings_of skipped_level_text))
     = [[str ''A''], [str ''A'', str ''B''], [str ''A'', str ''C'']]
   \<and> map_sum id (map section_hierarchy) (parse_content plain_detect [] deep_start_text)
     = Inr [[str ''B''], [str ''B'', str ''C'']]
   \<and> map (map snd) (spec_stacks [] (headings_of deep_start_text)) = [[str ''B''], [str ''C'']]"
  by (simp add: parser_eval)


section \<open>Chunkers: when a chunk is returned\<close>

lemma strip_empty_iff: "strip s = [] \<longleftrightarrow> (\<forall>c \<in> set s. is_space c)"
proof -
  let ?d = "dropWhile is_space s"
  have "strip s = [] \<longleftrightarrow> (\<forall>c \<in> set ?d. is_space c)"
    by (simp add: strip_def dropWhile_eq_Nil_conv)
  also have "\<dots> \<longleftrightarrow> (\<forall>c \<in> set s. is_space c)"
  proof
    assume all: "\<forall>c \<in> set ?d. is_space c"
    have "?d = []"
    proof (rule ccontr)
      assume ne: "?d \<noteq> []"
      then have "\<not> is_space (hd ?d)" by (rule hd_dropWhile)
      moreover from ne have "hd ?d \<in> set ?d" by (rule hd_in_set)
      ultimately show False using all by blast
    qed
    then show "\<forall>c \<in> set s. is_space c" by (simp add: dropWhile_eq_Nil_conv)
  next
    assume "\<forall>c \<in> set s. is_space c"
    then show "\<forall>c \<in> set ?d. is_space c" using set_dropWhileD by fastforce
  qed
  finally show ?thesis .
qed

lemma strip_has_text: "strip s \<noteq> [] \<Longrightarrow> \<exists>c \<in> set (strip s). \<not> is_space c"
proof -
  assume ne: "strip s \<noteq> []"
  let ?d = "dropWhile is_space (rev (dropWhile is_space s))"
  from ne have d: "?d \<noteq> []" by (simp add: strip_def)
  then have "\<not> is_space (hd ?d)" by (rule hd_dropWhile)
  moreover from d have "hd ?d \<in> set ?d" by (rule hd_in_set)
  ultimately show ?thesis by (auto simp: strip_def)
qed

lemma split_sentences_loop_nonempty:
  "\<exists>c \<in> set (current @ cs). \<not> is_space c \<Longrightarrow> split_sentences_loop cs current \<noteq> []"
proof (induction cs arbitrary: current)
  case Nil
  then have "strip current \<noteq> []" and "current \<noteq> []" by (auto simp: strip_empty_iff)
  then show ?case by simp
next
  case (Cons c cs)
  show ?case
  proof (cases "sentence_ending c")
    case False
    with Cons.IH [of "current @ [c]"] Cons.prems show ?thesis by simp
  next
    case True
    show ?thesis
    proof (cases "strip (current @ [c]) = []")
      case False
      with True show ?thesis by simp
    next
      case blank: True
      then have "\<forall>x \<in> set (current @ [c]). is_space x" by (simp add: strip_empty_iff)
      with Cons.prems have "\<exists>x \<in> set ([] @ cs). \<not> is_space x" by auto
      from Cons.IH [OF this] True show ?thesis by simp
    qed
  qed
qed

lemma split_sentences_loop_text:
  "s \<in> set (split_sentences_loop cs current) \<Longrightarrow> \<exists>c \<in> set s. \<not> is_space c"
proof (induction cs arbitrary: current)
  case Nil
  then show ?case using strip_has_text by (auto split: if_splits)
next
  case (Cons c cs)
  then show ?case using strip_has_text by (auto split: if_splits)
qed

lemma split_words_loop_nonempty:
  "word \<noteq> [] \<or> (\<exists>c \<in> set cs. \<not> is_space c) \<Longrightarrow> split_words_loop cs word \<noteq> []"
  by (induction cs arbitrary: word) auto

lemma split_long_words_nonempty:
  "ws \<noteq> [] \<or> current_words \<noteq> [] \<Longrightarrow> split_long_words self ws current_words n \<noteq> []"
  by (induction ws arbitrary: current_words n) auto

lemma chunk_sentences_nonempty:
  "\<forall>s \<in> set sentences. \<exists>c \<in> set s. \<not> is_space c \<Longrightarrow> sentences \<noteq> [] \<or> current \<noteq> []
   \<Longrightarrow> chunk_sentences self sentences current n \<noteq> []"
proof (induction sentences arbitrary: current n)
  case Nil
  then show ?case by simp
next
  case (Cons s rest)
  have words: "split_long_words self (split_words s) [] 0 \<noteq> []"
    using Cons.prems(1) by (simp add: split_long_words_nonempty split_words_loop_nonempty
        split_words_def)
  have later: "chunk_sentences self rest (cur @ [s]) m \<noteq> []" for cur m
    using Cons.IH [of "cur @ [s]" m] Cons.prems(1) by simp
  show ?case using words later later [of "[]", simplified] by simp
qed

lemma section_units_nonempty:
  assumes "count_tokens (content s) \<le> chunk_size self \<or> content_type s \<in> {CODE_BLOCK, TABLE}
           \<or> (\<exists>c \<in> set (content s). \<not> is_space c)"
  shows "section_units self s \<noteq> []"
proof (cases "count_tokens (content s) \<le> chunk_size self \<or> content_type s \<in> {CODE_BLOCK, TABLE}")
  case True
  then show ?thesis by (auto simp: section_units_def)
next
  case False
  with assms have "\<exists>c \<in> set (content s). \<not> is_space c" by blast
  then have "split_sentences (content s) \<noteq> []"
    by (simp add: split_sentences_def split_sentences_loop_nonempty)
  moreover have "\<forall>x \<in> set (split_sentences (content s)). \<exists>c \<in> set x. \<not> is_space c"
    using split_sentences_loop_text by (auto simp: split_sentences_def)
  ultimately have "chunk_sentences self (split_sentences (content s)) [] 0 \<noteq> []"
    by (simp add: chunk_sentences_nonempty)
  with False show ?thesis by (simp add: section_units_def)
qed

lemma assign_ids_length: "length (assign_ids uuids chunks) = length chunks"
  by (simp add: assign_ids_def)

lemma group_loop_parts: "(h, parts) \<in> set (group_loop secs ch cs) \<Longrightarrow> parts \<noteq> []"
  by (induction secs arbitrary: ch cs) (auto split: if_splits)

lemma group_loop_nonempty:
  "cs \<noteq> [] \<or> (\<exists>s \<in> set secs. content_type s \<noteq> HEADING) \<Longrightarrow> group_loop secs ch cs \<noteq> []"
  by (induction secs arbitrary: ch cs) auto

lemma split_char_nonempty: "split_char sep s \<noteq> []"
  by (induction s) (auto split: list.splits)

lemma split_lines_loop_nonempty:
  "ls \<noteq> [] \<or> current_lines \<noteq> [] \<Longrightarrow> split_lines_loop self ls current_lines n \<noteq> []"
  by (induction ls arbitrary: current_lines n) auto

lemma split_large_content_nonempty: "split_large_content self body ctype \<noteq> []"
  by (simp add: split_large_content_def split_lines_loop_nonempty split_char_nonempty)

lemma group_parts_loop_nonempty:
  "parts \<noteq> [] \<or> cc \<noteq> [] \<Longrightarrow> group_parts_loop self parts cc n types \<noteq> []"
proof (induction parts arbitrary: cc n types)
  case Nil
  then show ?case by (simp add: saved_piece_def)
next
  case (Cons part rest)
  have later: "group_parts_loop self rest (cur @ [content part]) m ts \<noteq> []" for cur m ts
    using Cons.IH [of "cur @ [content part]" m ts] by simp
  show ?case
    using later later [of "[]", simplified]
      split_large_content_nonempty [of self "content part" "content_type part"]
    by (simp add: saved_piece_def)
qed

lemma group_pieces_nonempty: "parts \<noteq> [] \<Longrightarrow> group_pieces self parts \<noteq> []"
  by (simp add: group_pieces_def group_parts_loop_nonempty)

text \<open>
  C6 (amended). No operation of either \<^verbatim>\<open>chunk\<close> can raise, so both are total functions
  here. The sentence-boundary chunker returns a chunk when some section is within the
  budget, is a code block or a table, or has a character that is not whitespace; the
  hierarchy-grouping chunker returns a chunk when some section is not a heading.
\<close>

theorem chunk_returns_a_chunk:
  "((\<exists>s \<in> set (sections document).
        count_tokens (content s) \<le> chunk_size sem \<or> content_type s \<in> {CODE_BLOCK, TABLE}
        \<or> (\<exists>c \<in> set (content s). \<not> is_space c))
     \<longrightarrow> semantic_chunk sem uuids document document_id \<noteq> [])
   \<and> ((\<exists>s \<in> set (sections document). content_type s \<noteq> HEADING)
        \<longrightarrow> structure_chunk stru uuids document document_id \<noteq> [])"
proof (intro conjI impI)
  assume "\<exists>s \<in> set (sections document).
            count_tokens (content s) \<le> chunk_size sem \<or> content_type s \<in> {CODE_BLOCK, TABLE}
            \<or> (\<exists>c \<in> set (content s). \<not> is_space c)"
  then obtain s where s: "s \<in> set (sections document)"
    and ok: "count_tokens (content s) \<le> chunk_size sem \<or> content_type s \<in> {CODE_BLOCK, TABLE}
             \<or> (\<exists>c \<in> set (content s). \<not> is_space c)" by blast
  from ok have "chunk_section sem document_id s \<noteq> []"
    by (simp add: chunk_section_def section_units_nonempty)
  with s have "concat (map (chunk_section sem document_id) (sections document)) \<noteq> []"
    by auto
  then show "semantic_chunk sem uuids document document_id \<noteq> []"
    using assign_ids_length [of uuids "concat (map (chunk_section sem document_id) (sections document))"]
    by (auto simp: semantic_chunk_def simp del: assign_ids_length)
next
  assume "\<exists>s \<in> set (sections document). content_type s \<noteq> HEADING"
  then have "group_sections_by_hierarchy (sections document) \<noteq> []"
    by (simp add: group_sections_by_hierarchy_def group_loop_nonempty)
  then obtain g where g: "g \<in> set (group_sections_by_hierarchy (sections document))"
    by (cases "group_sections_by_hierarchy (sections document)") auto
  obtain h parts where hp: "g = (h, parts)" by (cases g)
  with g have "parts \<noteq> []"
    using group_loop_parts by (simp add: group_sections_by_hierarchy_def)
  then have "chunk_section_group stru parts document_id h \<noteq> []"
    by (simp add: chunk_section_group_def group_pieces_nonempty)
  with g hp have "concat (map (\<lambda>(group_hierarchy, parts).
                       chunk_section_group stru parts document_id group_hierarchy)
                  (group_sections_by_hierarchy (sections document))) \<noteq> []"
    by force
  then show "structure_chunk stru uuids document document_id \<noteq> []"
    using assign_ids_length [of uuids "concat (map (\<lambda>(group_hierarchy, parts).
                       chunk_section_group stru parts document_id group_hierarchy)
                  (group_sections_by_hierarchy (sections document)))"]
    by (auto simp: structure_chunk_def simp del: assign_ids_length)
qed

text \<open>The equations that evaluate the chunkers on a given document.\<close>

lemmas chunker_eval = semantic_chunk_def structure_chunk_def chunk_section_def section_units_def
  chunk_section_group_def group_pieces_def group_sections_by_hierarchy_def split_sentences_def
  split_words_def get_overlap_sentences_def split_large_content_def saved_piece_def
  with_heading_def get_dominant_content_type_from_list_def count_tokens_def assign_ids_def
  create_def plain_section_def document_of_def small_semantic_def small_structure_def
  numbered_ids_def decimal.simps strip_def is_space_def sentence_ending_def str_def
  heading_only_document_def blank_document_def two_sentence_document_def

theorem chunk_returns_a_chunk_witness:
  "(\<exists>s \<in> set (sections two_sentence_document). \<exists>c \<in> set (content s). \<not> is_space c)
   \<and> (\<exists>s \<in> set (sections two_sentence_document). content_type s \<noteq> HEADING)
   \<and> semantic_chunk small_semantic numbered_ids two_sentence_document (str ''d'') \<noteq> []
   \<and> structure_chunk small_structure numbered_ids two_sentence_document (str ''d'') \<noteq> []"
proof -
  have a: "\<exists>s \<in> set (sections two_sentence_document). \<exists>c \<in> set (content s). \<not> is_space c"
    by (simp add: chunker_eval)
  have b: "\<exists>s \<in> set (sections two_sentence_document). content_type s \<noteq> HEADING"
    by (simp add: chunker_eval)
  from a have a': "\<exists>s \<in> set (sections two_sentence_document).
        count_tokens (content s) \<le> chunk_size small_semantic
        \<or> content_type s \<in> {CODE_BLOCK, TABLE}
        \<or> (\<exists>c \<in> set (content s). \<not> is_space c)" by blast
  from chunk_returns_a_chunk [of two_sentence_document small_semantic numbered_ids "str ''d''"
      small_structure] a' b
  have "semantic_chunk small_semantic numbered_ids two_sentence_document (str ''d'') \<noteq> []"
    and "structure_chunk small_structure numbered_ids two_sentence_document (str ''d'') \<noteq> []"
    by blast+
  with a b show ?thesis by (intro conjI)
qed

text \<open>
  C6 as stated fails on a document whose only section is a heading, which the
  hierarchy-grouping chunker skips, and on a section of whitespace over the budget, in
  which the sentence-boundary chunker finds no sentence: no chunk is returned.
\<close>

theorem chunk_empty_counterexample:
  "sections heading_only_document \<noteq> []
   \<and> structure_chunk small_structure numbered_ids heading_only_document (str ''d'') = []
   \<and> sections blank_document \<noteq> []
   \<and> semantic_chunk small_semantic numbered_ids blank_document (str ''d'') = []"
  by (simp add: chunker_eval)


section \<open>Sentence-boundary chunker: the overlap\<close>

lemma overlap_loop_take:
  "\<exists>k \<le> length xs. overlap_loop self xs tok acc = rev (take k xs) @ acc
     \<and> (0 < k \<longrightarrow> tok + sum_list (map count_tokens (take k xs)) \<le> chunk_overlap self)"
proof (induction xs arbitrary: tok acc)
  case Nil
  show ?case by simp
next
  case (Cons x xs)
  show ?case
  proof (cases "tok + count_tokens x \<le> chunk_overlap self")
    case False
    then have "overlap_loop self (x # xs) tok acc = rev (take 0 (x # xs)) @ acc" by simp
    then show ?thesis by blast
  next
    case True
    from Cons.IH [of "tok + count_tokens x" "x # acc"] obtain k where
      k: "k \<le> length xs"
      "overlap_loop self xs (tok + count_tokens x) (x # acc) = rev (take k xs) @ x # acc"
      "0 < k \<longrightarrow> tok + count_tokens x + sum_list (map count_tokens (take k xs))
                   \<le> chunk_overlap self"
      by blast
    have "Suc k \<le> length (x # xs)" using k(1) by simp
    moreover have "overlap_loop self (x # xs) tok acc = rev (take (Suc k) (x # xs)) @ acc"
      using True k(2) by simp
    moreover have "tok + sum_list (map count_tokens (take (Suc k) (x # xs))) \<le> chunk_overlap self"
      using True k(3) by (cases "k = 0") (simp_all add: add.assoc)
    ultimately show ?thesis by blast
  qed
qed

lemma get_overlap_sentences_suffix:
  "suffix (get_overlap_sentences self sentences) sentences
   \<and> sum_list (map count_tokens (get_overlap_sentences self sentences))
       \<le> max 0 (chunk_overlap self)"
proof (cases "sentences = []")
  case True
  then show ?thesis by (simp add: get_overlap_sentences_def)
next
  case False
  from overlap_loop_take [of "rev sentences" self 0 "[]"] obtain k where
    k: "k \<le> length sentences"
    "overlap_loop self (rev sentences) 0 [] = rev (take k (rev sentences))"
    "0 < k \<longrightarrow> sum_list (map count_tokens (take k (rev sentences))) \<le> chunk_overlap self"
    by auto
  have ov: "get_overlap_sentences self sentences = rev (take k (rev sentences))"
    using False k(2) by (simp add: get_overlap_sentences_def)
  have "rev (take k (rev sentences)) = drop (length sentences - k) sentences"
    by (simp add: take_rev)
  then have suf: "suffix (get_overlap_sentences self sentences) sentences"
    unfolding ov by (simp add: suffix_drop)
  have "sum_list (map count_tokens (rev (take k (rev sentences))))
        = sum_list (map count_tokens (take k (rev sentences)))"
    by (simp add: rev_map [symmetric])
  then have "sum_list (map count_tokens (get_overlap_sentences self sentences))
             \<le> max 0 (chunk_overlap self)"
    unfolding ov using k(3) by (cases "k = 0") auto
  with suf show ?thesis by blast
qed

lemma chunk_sentences_first:
  "current \<noteq> [] \<Longrightarrow>
   \<exists>next_chunk later. chunk_sentences self rest current n = next_chunk # later
     \<and> prefix current next_chunk"
proof (induction rest arbitrary: current n)
  case Nil
  then show ?case by simp
next
  case (Cons s rest)
  from Cons.IH [of "current @ [s]" "n + count_tokens s"] obtain c l where
    "chunk_sentences self rest (current @ [s]) (n + count_tokens s) = c # l"
    "prefix (current @ [s]) c" by auto
  moreover from this have "prefix current c" using append_prefixD by blast
  ultimately show ?case using Cons.prems by simp
qed

text \<open>
  C7 (amended). When the sentences \<open>current\<close> are saved as a chunk because the next
  sentence, itself within the budget, does not fit, the next chunk starts with the
  overlap followed by that sentence; the overlap is a suffix of \<open>current\<close>, which may be
  all of it, and the token counts of its sentences add up to at most \<open>chunk_overlap\<close>
  (to nothing when \<open>chunk_overlap\<close> is negative).
\<close>

theorem overlap_carried:
  assumes "current \<noteq> []"
    and "\<not> count_tokens sentence > chunk_size self"
    and "current_length + count_tokens sentence > chunk_size self"
  shows "\<exists>next_chunk later.
           chunk_sentences self (sentence # rest) current current_length
             = current # next_chunk # later
           \<and> prefix (get_overlap_sentences self current @ [sentence]) next_chunk
           \<and> suffix (get_overlap_sentences self current) current
           \<and> sum_list (map count_tokens (get_overlap_sentences self current))
               \<le> max 0 (chunk_overlap self)"
proof -
  let ?ov = "get_overlap_sentences self current"
  let ?n = "sum_list (map count_tokens ?ov) + count_tokens sentence"
  have step: "chunk_sentences self (sentence # rest) current current_length
              = current # chunk_sentences self rest (?ov @ [sentence]) ?n"
    using assms by simp
  obtain next_chunk later where
    nx: "chunk_sentences self rest (?ov @ [sentence]) ?n = next_chunk # later"
    "prefix (?ov @ [sentence]) next_chunk"
    using chunk_sentences_first [of "?ov @ [sentence]" self rest ?n] by auto
  from step nx get_overlap_sentences_suffix [of self current] show ?thesis by auto
qed

theorem overlap_carried_witness:
  "\<exists>next_chunk later.
     chunk_sentences small_semantic [str ''bbbbbbbb.'', str ''cc.''] [str ''aaaaa.'', str ''aaa.''] 3
       = [str ''aaaaa.'', str ''aaa.''] # next_chunk # later
     \<and> prefix ([str ''aaa.''] @ [str ''bbbbbbbb.'']) next_chunk
     \<and> get_overlap_sentences small_semantic [str ''aaaaa.'', str ''aaa.''] = [str ''aaa.'']"
proof -
  have a: "[str ''aaaaa.'', str ''aaa.''] \<noteq> []" by simp
  have b: "\<not> count_tokens (str ''bbbbbbbb.'') > chunk_size small_semantic"
    by (simp add: count_tokens_def small_semantic_def str_def)
  have c: "3 + count_tokens (str ''bbbbbbbb.'') > chunk_size small_semantic"
    by (simp add: count_tokens_def small_semantic_def str_def)
  have ov: "get_overlap_sentences small_semantic [str ''aaaaa.'', str ''aaa.''] = [str ''aaa.'']"
    by (simp add: get_overlap_sentences_def count_tokens_def small_semantic_def str_def)
  from overlap_carried [OF a b c, of "[str ''cc.'']"] obtain next_chunk later where
    "chunk_sentences small_semantic [str ''bbbbbbbb.'', str ''cc.''] [str ''aaaaa.'', str ''aaa.''] 3
       = [str ''aaaaa.'', str ''aaa.''] # next_chunk # later"
    "prefix (get_overlap_sentences small_semantic [str ''aaaaa.'', str ''aaa.'']
             @ [str ''bbbbbbbb.'']) next_chunk"
    by (elim exE conjE)
  with ov show ?thesis by (intro exI [of _ next_chunk] exI [of _ later]) simp
qed

text \<open>
  C7 as stated fails where the whole of chunk N fits the overlap budget: the overlap is
  then all of chunk N, not a strict suffix of it.
\<close>

theorem overlap_whole_chunk_counterexample:
  "section_units small_semantic (plain_section (str ''aaa.bbbbbbbb.'') TEXT [])
   = [[str ''aaa.''], [str ''aaa.'', str ''bbbbbbbb.'']]
   \<and> get_overlap_sentences small_semantic [str ''aaa.''] = [str ''aaa.'']
   \<and> \<not> strict_suffix (get_overlap_sentences small_semantic [str ''aaa.'']) [str ''aaa.'']"
  by (simp add: chunker_eval)


section \<open>Chunkers: the token budget\<close>

text \<open>
  Both chunkers add up the token counts of the strings they put into a chunk and compare
  that sum with the budget; the separators between the strings and the heading prefix are
  not counted.
\<close>

lemma split_words_loop_no_space:
  "w \<in> set (split_words_loop cs word) \<Longrightarrow> \<forall>c \<in> set word. \<not> is_space c
   \<Longrightarrow> \<forall>c \<in> set w. \<not> is_space c"
proof (induction cs arbitrary: word)
  case Nil
  then have "w = word" by (simp split: if_splits)
  with Nil.prems(2) show ?case by simp
next
  case (Cons c cs)
  show ?case
  proof (cases "is_space c")
    case True
    with Cons.prems(1) have "w = word \<or> w \<in> set (split_words_loop cs [])"
      by (auto split: if_splits)
    then show ?thesis
    proof
      assume "w = word"
      with Cons.prems(2) show ?thesis by simp
    next
      assume "w \<in> set (split_words_loop cs [])"
      from Cons.IH [OF this] show ?thesis by simp
    qed
  next
    case False
    with Cons.prems(1) have mem: "w \<in> set (split_words_loop cs (word @ [c]))" by simp
    have "\<forall>x \<in> set (word @ [c]). \<not> is_space x" using Cons.prems(2) False by simp
    from Cons.IH [OF mem this] show ?thesis .
  qed
qed

lemma split_char_no_sep: "l \<in> set (split_char sep s) \<Longrightarrow> sep \<notin> set l"
proof (induction s arbitrary: l)
  case Nil
  then show ?case by simp
next
  case (Cons c cs)
  obtain w ws where parts: "split_char sep cs = w # ws"
    using split_char_nonempty [of sep cs] by (cases "split_char sep cs") auto
  have w: "sep \<notin> set w" and ws: "\<forall>x \<in> set ws. sep \<notin> set x"
    using Cons.IH parts by auto
  show ?case
  proof (cases "c = sep")
    case True
    with Cons.prems parts have "l = [] \<or> l = w \<or> l \<in> set ws" by auto
    with w ws show ?thesis by auto
  next
    case False
    with Cons.prems parts have "l = c # w \<or> l \<in> set ws" by auto
    with w ws False show ?thesis by auto
  qed
qed

lemma split_long_words_budget:
  assumes "g \<in> set (split_long_words self ws current_words n)"
    and "n = sum_list (map count_tokens current_words)"
    and "n \<le> chunk_size self \<or> length current_words \<le> 1"
  shows "(sum_list (map count_tokens g) \<le> chunk_size self \<or> length g = 1)
         \<and> set g \<subseteq> set ws \<union> set current_words"
  using assms
proof (induction ws arbitrary: current_words n)
  case Nil
  then show ?case by (cases current_words) (auto split: if_splits)
next
  case (Cons w ws)
  show ?case
  proof (cases "n + count_tokens w > chunk_size self")
    case True
    with Cons.prems(1) have "g = current_words \<and> current_words \<noteq> []
        \<or> g \<in> set (split_long_words self ws [w] (count_tokens w))"
      by (auto split: if_splits)
    then show ?thesis
    proof
      assume "g = current_words \<and> current_words \<noteq> []"
      with Cons.prems(2,3) show ?thesis by (cases current_words) auto
    next
      assume "g \<in> set (split_long_words self ws [w] (count_tokens w))"
      from Cons.IH [OF this] show ?thesis by auto
    qed
  next
    case False
    with Cons.prems(1)
    have "g \<in> set (split_long_words self ws (current_words @ [w]) (n + count_tokens w))"
      by simp
    from Cons.IH [OF this] Cons.prems(2) False show ?thesis by auto
  qed
qed

lemma split_lines_loop_budget:
  assumes "g \<in> set (split_lines_loop self ls current_lines n)"
    and "n = sum_list (map count_tokens current_lines)"
    and "n \<le> chunk_size self \<or> length current_lines \<le> 1"
  shows "(sum_list (map count_tokens g) \<le> chunk_size self \<or> length g = 1)
         \<and> set g \<subseteq> set ls \<union> set current_lines"
  using assms
proof (induction ls arbitrary: current_lines n)
  case Nil
  then show ?case by (cases current_lines) (auto split: if_splits)
next
  case (Cons l ls)
  show ?case
  proof (cases "n + count_tokens l > chunk_size self")
    case over: True
    show ?thesis
    proof (cases "current_lines = []")
      case True
      with over Cons.prems(1)
      have "g \<in> set (split_lines_loop self ls ([] @ [l]) (n + count_tokens l))" by simp
      from Cons.IH [OF this] Cons.prems(2) True show ?thesis by auto
    next
      case False
      with over Cons.prems(1) have "g = current_lines
          \<or> g \<in> set (split_lines_loop self ls [l] (0 + count_tokens l))" by auto
      then show ?thesis
      proof
        assume "g = current_lines"
        with Cons.prems(2,3) False show ?thesis by (cases current_lines) auto
      next
        assume "g \<in> set (split_lines_loop self ls [l] (0 + count_tokens l))"
        from Cons.IH [OF this] show ?thesis by auto
      qed
    qed
  next
    case False
    with Cons.prems(1)
    have "g \<in> set (split_lines_loop self ls (current_lines @ [l]) (n + count_tokens l))"
      by simp
    from Cons.IH [OF this] Cons.prems(2) False show ?thesis by auto
  qed
qed

lemma chunk_sentences_budget:
  assumes "g \<in> set (chunk_sentences self sentences current n)"
    and "n = sum_list (map count_tokens current)"
    and "current = [] \<or> n \<le> chunk_size self + max 0 (chunk_overlap self)"
  shows "sum_list (map count_tokens g) \<le> chunk_size self + max 0 (chunk_overlap self)
         \<or> (length g = 1 \<and> (\<forall>c \<in> set (hd g). \<not> is_space c))"
  using assms
proof (induction sentences arbitrary: current n)
  case Nil
  then show ?case by (auto split: if_splits)
next
  case (Cons s rest)
  let ?B = "chunk_size self + max 0 (chunk_overlap self)"
  show ?case
  proof (cases "count_tokens s > chunk_size self")
    case long: True
    from Cons.prems(1) long
    have "(g = current \<and> current \<noteq> [])
          \<or> g \<in> set (split_long_words self (split_words s) [] 0)
          \<or> g \<in> set (chunk_sentences self rest [] 0)
          \<or> (current = [] \<and> g \<in> set (chunk_sentences self rest current n))"
      by (auto split: if_splits)
    then consider (saved) "g = current" "current \<noteq> []"
      | (wordrun) "g \<in> set (split_long_words self (split_words s) [] 0)"
      | (later) "g \<in> set (chunk_sentences self rest [] 0)"
      by (auto simp: Cons.prems(2))
    then show ?thesis
    proof cases
      case saved
      with Cons.prems(2,3) show ?thesis by simp
    next
      case wordrun
      from split_long_words_budget [OF wordrun]
      have b: "sum_list (map count_tokens g) \<le> chunk_size self \<or> length g = 1"
        and sub: "set g \<subseteq> set (split_words s)" by auto
      show ?thesis
      proof (cases "sum_list (map count_tokens g) \<le> chunk_size self")
        case True
        then show ?thesis by (simp add: max_def)
      next
        case False
        with b have one: "length g = 1" by simp
        then have "hd g \<in> set g" by (cases g) auto
        with sub have "hd g \<in> set (split_words_loop s [])" by (auto simp: split_words_def)
        then have "\<forall>c \<in> set (hd g). \<not> is_space c"
          using split_words_loop_no_space by fastforce
        with one show ?thesis by simp
      qed
    next
      case later
      from Cons.IH [OF later] show ?thesis by simp
    qed
  next
    case short: False
    show ?thesis
    proof (cases "n + count_tokens s > chunk_size self \<and> current \<noteq> []")
      case True
      let ?ov = "get_overlap_sentences self current"
      from Cons.prems(1) short True
      have "g = current
            \<or> g \<in> set (chunk_sentences self rest (?ov @ [s])
                         (sum_list (map count_tokens ?ov) + count_tokens s))"
        by auto
      then show ?thesis
      proof
        assume "g = current"
        with Cons.prems(2,3) True show ?thesis by simp
      next
        assume mem: "g \<in> set (chunk_sentences self rest (?ov @ [s])
                               (sum_list (map count_tokens ?ov) + count_tokens s))"
        have "sum_list (map count_tokens ?ov) \<le> max 0 (chunk_overlap self)"
          using get_overlap_sentences_suffix by blast
        with short have "sum_list (map count_tokens ?ov) + count_tokens s \<le> ?B" by simp
        with Cons.IH [OF mem] show ?thesis by simp
      qed
    next
      case False
      with Cons.prems(1) short
      have mem: "g \<in> set (chunk_sentences self rest (current @ [s]) (n + count_tokens s))"
        by (auto split: if_splits)
      have "n + count_tokens s \<le> ?B"
      proof (cases "current = []")
        case True
        with Cons.prems(2) short show ?thesis by simp
      next
        case ne: False
        with False have "n + count_tokens s \<le> chunk_size self" by simp
        then show ?thesis by simp
      qed
      with Cons.IH [OF mem] Cons.prems(2) show ?thesis by simp
    qed
  qed
qed

lemma section_units_budget:
  assumes "g \<in> set (section_units self s)"
  shows "sum_list (map count_tokens g) \<le> chunk_size self + max 0 (chunk_overlap self)
         \<or> (length g = 1
             \<and> (content_type s \<in> {CODE_BLOCK, TABLE} \<or> (\<forall>c \<in> set (hd g). \<not> is_space c)))"
proof (cases "count_tokens (content s) \<le> chunk_size self")
  case True
  with assms have "g = [content s]" by (simp add: section_units_def)
  with True show ?thesis by (simp add: max_def)
next
  case over: False
  show ?thesis
  proof (cases "content_type s \<in> {CODE_BLOCK, TABLE}")
    case True
    with over assms have "g = [content s]" by (auto simp: section_units_def)
    with True show ?thesis by simp
  next
    case False
    with over assms have "g \<in> set (chunk_sentences self (split_sentences (content s)) [] 0)"
      by (auto simp: section_units_def)
    from chunk_sentences_budget [OF this] show ?thesis by auto
  qed
qed

lemma split_large_content_budget:
  assumes "p \<in> set (split_large_content self body ctype)"
  shows "sum_list (map count_tokens (units p)) \<le> chunk_size self
         \<or> (length (units p) = 1
             \<and> (piece_type p \<in> {CODE_BLOCK, TABLE} \<or> 10 \<notin> set (hd (units p))))"
proof (cases "ctype \<in> {CODE_BLOCK, TABLE}")
  case True
  with assms show ?thesis by (auto simp: split_large_content_def)
next
  case False
  with assms obtain ls where ls: "ls \<in> set (split_lines_loop self (split_char 10 body) [] 0)"
    and p: "units p = ls" by (auto simp: split_large_content_def)
  from split_lines_loop_budget [OF ls]
  have b: "sum_list (map count_tokens ls) \<le> chunk_size self \<or> length ls = 1"
    and sub: "set ls \<subseteq> set (split_char 10 body)" by auto
  show ?thesis
  proof (cases "sum_list (map count_tokens ls) \<le> chunk_size self")
    case True
    with p show ?thesis by simp
  next
    case False
    with b have one: "length ls = 1" by simp
    then have "hd ls \<in> set ls" by (cases ls) auto
    with sub have "10 \<notin> set (hd ls)" using split_char_no_sep by blast
    with one p show ?thesis by simp
  qed
qed

lemma group_parts_loop_budget:
  assumes "p \<in> set (group_parts_loop self parts cc n types)"
    and "n = sum_list (map count_tokens cc)"
    and "cc = [] \<or> n \<le> chunk_size self"
  shows "sum_list (map count_tokens (units p)) \<le> chunk_size self
         \<or> (length (units p) = 1
             \<and> (piece_type p \<in> {CODE_BLOCK, TABLE} \<or> 10 \<notin> set (hd (units p))))"
  using assms
proof (induction parts arbitrary: cc n types)
  case Nil
  then show ?case by (auto simp: saved_piece_def split: if_splits)
next
  case (Cons part rest)
  have saved: ?case if "p \<in> set (saved_piece cc types)"
    using that Cons.prems(2,3) by (auto simp: saved_piece_def split: if_splits)
  show ?case
  proof (cases "count_tokens (content part) > chunk_size self")
    case long: True
    from Cons.prems(1) long
    have "p \<in> set (saved_piece cc types)
          \<or> p \<in> set (split_large_content self (content part) (content_type part))
          \<or> p \<in> set (group_parts_loop self rest [] 0 [])
          \<or> (cc = [] \<and> p \<in> set (group_parts_loop self rest cc n types))"
      by (auto split: if_splits)
    then consider (a) "p \<in> set (saved_piece cc types)"
      | (b) "p \<in> set (split_large_content self (content part) (content_type part))"
      | (c) "p \<in> set (group_parts_loop self rest [] 0 [])"
      | (d) "cc = []" "p \<in> set (group_parts_loop self rest cc n types)"
      by blast
    then show ?thesis
    proof cases
      case a
      then show ?thesis by (rule saved)
    next
      case b
      then show ?thesis by (rule split_large_content_budget)
    next
      case c
      from Cons.IH [OF c] show ?thesis by simp
    next
      case d
      from Cons.IH [OF d(2) Cons.prems(2)] d(1) show ?thesis by simp
    qed
  next
    case short: False
    show ?thesis
    proof (cases "n + count_tokens (content part) > chunk_size self \<and> cc \<noteq> []")
      case True
      from Cons.prems(1) short True
      have "p \<in> set (saved_piece cc types)
            \<or> p \<in> set (group_parts_loop self rest [content part]
                          (0 + count_tokens (content part)) [content_type part])"
        by auto
      then show ?thesis
      proof
        assume "p \<in> set (saved_piece cc types)"
        then show ?thesis by (rule saved)
      next
        assume mem: "p \<in> set (group_parts_loop self rest [content part]
                                (0 + count_tokens (content part)) [content_type part])"
        from Cons.IH [OF mem] short show ?thesis by simp
      qed
    next
      case False
      with Cons.prems(1) short
      have mem: "p \<in> set (group_parts_loop self rest (cc @ [content part])
                              (n + count_tokens (content part)) (types @ [content_type part]))"
        by (auto simp: saved_piece_def split: if_splits)
      have "n + count_tokens (content part) \<le> chunk_size self"
      proof (cases "cc = []")
        case True
        with Cons.prems(2) short show ?thesis by simp
      next
        case ne: False
        with False show ?thesis by simp
      qed
      with Cons.IH [OF mem] Cons.prems(2) show ?thesis by simp
    qed
  qed
qed

lemma group_pieces_budget:
  assumes "p \<in> set (group_pieces self parts)"
  shows "sum_list (map count_tokens (units p)) \<le> chunk_size self
         \<or> (length (units p) = 1
             \<and> (piece_type p \<in> {CODE_BLOCK, TABLE} \<or> 10 \<notin> set (hd (units p))))"
proof (cases "sum_list (map (\<lambda>p. count_tokens (content p)) parts) \<le> chunk_size self")
  case True
  with assms have "units p = map content parts" by (simp add: group_pieces_def)
  with True show ?thesis by (simp add: comp_def)
next
  case False
  with assms have "p \<in> set (group_parts_loop self parts [] 0 [])"
    by (simp add: group_pieces_def)
  from group_parts_loop_budget [OF this] show ?thesis by simp
qed

lemma assign_ids_content:
  "c \<in> set (assign_ids uuids chunks)
   \<Longrightarrow> \<exists>c0 \<in> set chunks. c_content c = c_content c0 \<and> c_content_type c = c_content_type c0"
  by (auto simp: assign_ids_def in_set_enumerate_eq)

text \<open>
  C1 (amended). Every chunk of the sentence-boundary chunker is the strings of one list
  joined by a space, and every chunk of the hierarchy-grouping chunker is the strings of
  one list joined by its separator, after the heading prefix when there is one. The token
  counts of the strings of the list add up to at most \<open>chunk_size\<close>, in the
  sentence-boundary chunker to at most \<open>chunk_size\<close> plus the overlap budget, unless the
  list is a single string that is a code block or a table, or a single word, or a single
  line.
\<close>

theorem chunks_within_budget:
  "(\<forall>c \<in> set (semantic_chunk sem uuids document document_id).
      \<exists>s \<in> set (sections document). \<exists>g \<in> set (section_units sem s).
        c_content c = join (str '' '') g \<and> c_content_type c = content_type s
        \<and> (sum_list (map count_tokens g) \<le> chunk_size sem + max 0 (chunk_overlap sem)
             \<or> (length g = 1
                 \<and> (content_type s \<in> {CODE_BLOCK, TABLE} \<or> (\<forall>x \<in> set (hd g). \<not> is_space x)))))
   \<and> (\<forall>c \<in> set (structure_chunk stru uuids document document_id).
        \<exists>gp \<in> set (group_sections_by_hierarchy (sections document)).
        \<exists>p \<in> set (group_pieces stru (snd gp)).
          c_content c = with_heading stru (fst gp) (join (separator p) (units p))
          \<and> c_content_type c = piece_type p
          \<and> (sum_list (map count_tokens (units p)) \<le> chunk_size stru
               \<or> (length (units p) = 1
                   \<and> (piece_type p \<in> {CODE_BLOCK, TABLE} \<or> 10 \<notin> set (hd (units p))))))"
proof (intro conjI ballI)
  fix c assume "c \<in> set (semantic_chunk sem uuids document document_id)"
  then obtain c0 where c0: "c0 \<in> set (concat (map (chunk_section sem document_id) (sections document)))"
    and same: "c_content c = c_content c0" "c_content_type c = c_content_type c0"
    using assign_ids_content unfolding semantic_chunk_def by blast
  from c0 obtain s where s: "s \<in> set (sections document)"
    and "c0 \<in> set (chunk_section sem document_id s)" by auto
  then obtain g where g: "g \<in> set (section_units sem s)"
    and c0g: "c0 = create document_id (join (str '' '') g) (content_type s)
                     (section_hierarchy s) (section_metadata s)"
    by (auto simp: chunk_section_def)
  from c0g same have "c_content c = join (str '' '') g" "c_content_type c = content_type s"
    by (simp_all add: create_def)
  with s g section_units_budget [OF g]
  show "\<exists>s \<in> set (sections document). \<exists>g \<in> set (section_units sem s).
        c_content c = join (str '' '') g \<and> c_content_type c = content_type s
        \<and> (sum_list (map count_tokens g) \<le> chunk_size sem + max 0 (chunk_overlap sem)
             \<or> (length g = 1
                 \<and> (content_type s \<in> {CODE_BLOCK, TABLE} \<or> (\<forall>x \<in> set (hd g). \<not> is_space x))))"
    by blast
next
  fix c assume "c \<in> set (structure_chunk stru uuids document document_id)"
  then obtain c0 where
    c0: "c0 \<in> set (concat (map (\<lambda>(group_hierarchy, parts).
                       chunk_section_group stru parts document_id group_hierarchy)
                  (group_sections_by_hierarchy (sections document))))"
    and same: "c_content c = c_content c0" "c_content_type c = c_content_type c0"
    using assign_ids_content unfolding structure_chunk_def by blast
  from c0 obtain gp where gp: "gp \<in> set (group_sections_by_hierarchy (sections document))"
    and "c0 \<in> set (chunk_section_group stru (snd gp) document_id (fst gp))"
    by (auto simp: case_prod_beta)
  then obtain p where p: "p \<in> set (group_pieces stru (snd gp))"
    and c0p: "c0 = create document_id (with_heading stru (fst gp) (join (separator p) (units p)))
                     (piece_type p) (fst gp) (piece_metadata p)"
    by (auto simp: chunk_section_group_def)
  from c0p same have "c_content c = with_heading stru (fst gp) (join (separator p) (units p))"
    "c_content_type c = piece_type p" by (simp_all add: create_def)
  with gp p group_pieces_budget [OF p]
  show "\<exists>gp \<in> set (group_sections_by_hierarchy (sections document)).
        \<exists>p \<in> set (group_pieces stru (snd gp)).
          c_content c = with_heading stru (fst gp) (join (separator p) (units p))
          \<and> c_content_type c = piece_type p
          \<and> (sum_list (map count_tokens (units p)) \<le> chunk_size stru
               \<or> (length (units p) = 1
                   \<and> (piece_type p \<in> {CODE_BLOCK, TABLE} \<or> 10 \<notin> set (hd (units p)))))"
    by blast
qed


lemma two_sentence_chunks:
  "map c_content (semantic_chunk small_semantic numbered_ids two_sentence_document (str ''d''))
   = [str ''aaa.'', str ''aaa. bbbbbbbb.'']"
  by (simp add: chunker_eval)

lemma prefixed_chunks:
  "map c_content (structure_chunk small_structure numbered_ids prefixed_document (str ''d''))
   = [str ''T'' @ [10, 10] @ str ''abcdef'']"
  by (simp add: chunker_eval prefixed_document_def)


theorem chunks_within_budget_witness:
  "(\<exists>c \<in> set (semantic_chunk small_semantic numbered_ids two_sentence_document (str ''d'')).
      c_content c = str ''aaa. bbbbbbbb.''
      \<and> (\<exists>s \<in> set (sections two_sentence_document).
          \<exists>g \<in> set (section_units small_semantic s).
            c_content c = join (str '' '') g \<and> c_content_type c = content_type s
            \<and> (sum_list (map count_tokens g)
                  \<le> chunk_size small_semantic + max 0 (chunk_overlap small_semantic)
                \<or> (length g = 1
                    \<and> (content_type s \<in> {CODE_BLOCK, TABLE}
                        \<or> (\<forall>x \<in> set (hd g). \<not> is_space x))))))
   \<and> (\<exists>c \<in> set (structure_chunk small_structure numbered_ids prefixed_document (str ''d'')).
      c_content c = str ''T'' @ [10, 10] @ str ''abcdef''
      \<and> (\<exists>gp \<in> set (group_sections_by_hierarchy (sections prefixed_document)).
          \<exists>p \<in> set (group_pieces small_structure (snd gp)).
            c_content c = with_heading small_structure (fst gp) (join (separator p) (units p))
            \<and> c_content_type c = piece_type p
            \<and> (sum_list (map count_tokens (units p)) \<le> chunk_size small_structure
                \<or> (length (units p) = 1
                    \<and> (piece_type p \<in> {CODE_BLOCK, TABLE} \<or> 10 \<notin> set (hd (units p)))))))"
proof -
  let ?sem = "semantic_chunk small_semantic numbered_ids two_sentence_document (str ''d'')"
  let ?stru = "structure_chunk small_structure numbered_ids prefixed_document (str ''d'')"
  from two_sentence_chunks obtain x y where
    sem: "?sem = [x, y]" and c1: "c_content y = str ''aaa. bbbbbbbb.''"
    unfolding map_eq_Cons_conv by (elim exE conjE) simp
  have m1: "y \<in> set ?sem" unfolding sem by simp
  from prefixed_chunks obtain z where
    stru: "?stru = [z]" and c2: "c_content z = str ''T'' @ [10, 10] @ str ''abcdef''"
    unfolding map_eq_Cons_conv by (elim exE conjE) simp
  have m2: "z \<in> set ?stru" unfolding stru by simp
  note a = chunks_within_budget [where sem = small_semantic and uuids = numbered_ids
      and document = two_sentence_document and document_id = "str ''d''",
      THEN conjunct1, rule_format, OF m1]
  note b = chunks_within_budget [where stru = small_structure and uuids = numbered_ids
      and document = prefixed_document and document_id = "str ''d''",
      THEN conjunct2, rule_format, OF m2]
  show ?thesis
  proof (rule conjI)
    show "\<exists>c \<in> set ?sem. c_content c = str ''aaa. bbbbbbbb.''
      \<and> (\<exists>s \<in> set (sections two_sentence_document).
          \<exists>g \<in> set (section_units small_semantic s).
            c_content c = join (str '' '') g \<and> c_content_type c = content_type s
            \<and> (sum_list (map count_tokens g)
                  \<le> chunk_size small_semantic + max 0 (chunk_overlap small_semantic)
                \<or> (length g = 1
                    \<and> (content_type s \<in> {CODE_BLOCK, TABLE}
                        \<or> (\<forall>x \<in> set (hd g). \<not> is_space x)))))"
    proof (rule bexI [of _ y])
      show "y \<in> set ?sem" by (rule m1)
    qed (rule conjI [OF c1 a])
    show "\<exists>c \<in> set ?stru. c_content c = str ''T'' @ [10, 10] @ str ''abcdef''
      \<and> (\<exists>gp \<in> set (group_sections_by_hierarchy (sections prefixed_document)).
          \<exists>p \<in> set (group_pieces small_structure (snd gp)).
            c_content c = with_heading small_structure (fst gp) (join (separator p) (units p))
            \<and> c_content_type c = piece_type p
            \<and> (sum_list (map count_tokens (units p)) \<le> chunk_size small_structure
                \<or> (length (units p) = 1
                    \<and> (piece_type p \<in> {CODE_BLOCK, TABLE} \<or> 10 \<notin> set (hd (units p))))))"
    proof (rule bexI [of _ z])
      show "z \<in> set ?stru" by (rule m2)
    qed (rule conjI [OF c2 b])
  qed
qed

text \<open>
  C1 as stated fails in both chunkers. In the sentence-boundary chunker the second chunk
  is the carried sentence and the next one: two sentences, each within the budget of 3,
  in a text chunk of 4 tokens. In the hierarchy-grouping chunker a section of 2 tokens,
  within the budget of 2, becomes with its heading prefix a text chunk of 3 tokens.
\<close>

theorem chunk_over_budget_counterexample:
  "map c_content (semantic_chunk small_semantic numbered_ids two_sentence_document (str ''d''))
     = [str ''aaa.'', str ''aaa. bbbbbbbb.'']
   \<and> map c_content_type
        (semantic_chunk small_semantic numbered_ids two_sentence_document (str ''d''))
     = [TEXT, TEXT]
   \<and> count_tokens (str ''aaa. bbbbbbbb.'') = 4 \<and> chunk_size small_semantic = 3
   \<and> split_sentences (str ''aaa.bbbbbbbb.'') = [str ''aaa.'', str ''bbbbbbbb.'']
   \<and> map count_tokens [str ''aaa.'', str ''bbbbbbbb.''] = [1, 3]
   \<and> map c_content (structure_chunk small_structure numbered_ids prefixed_document (str ''d''))
     = [str ''T'' @ [10, 10] @ str ''abcdef'']
   \<and> map c_content_type
        (structure_chunk small_structure numbered_ids prefixed_document (str ''d''))
     = [TEXT]
   \<and> count_tokens (str ''T'' @ [10, 10] @ str ''abcdef'') = 3
   \<and> chunk_size small_structure = 2 \<and> count_tokens (str ''abcdef'') = 2"
  by (simp add: chunker_eval prefixed_document_def)


section \<open>Coverage of the sections by the chunks\<close>




























section \<open>The table extractor on a \<^verbatim>\<open>CREATE TABLE\<close> statement\<close>

text \<open>
  A way through a pattern never goes back in the text, so a fuel as long as the text is
  never used up: any two fuels at least as long as the text left give the same result.
\<close>

lemma rmatch_rest:
  "s' \<in> set (rmatch fl fuel r s) \<Longrightarrow> length (m_rest s') \<le> length (m_rest s)"
proof (induction fl fuel r s arbitrary: s' rule: rmatch.induct)
  case (6 fl fuel a b s)
  from "6.prems" obtain t where t: "t \<in> set (rmatch fl fuel a s)" "s' \<in> set (rmatch fl fuel b t)"
    by auto
  from "6.IH"(1) [OF t(1)] "6.IH"(2) [OF t(1) t(2)] show ?case by simp
next
  case (10 fl x fuel a s)
  from "10.prems" consider "s' = s"
    | t where "t \<in> set (rmatch fl (x # fuel) a s)" "length (m_rest t) < length (m_rest s)"
        "s' \<in> set (rmatch fl fuel (RStar a) t)"
    by auto
  then show ?case
  proof cases
    case 1
    then show ?thesis by simp
  next
    case 2
    from 2(1,2) have "t \<in> set (filter (\<lambda>s'. length (m_rest s') < length (m_rest s))
                               (rmatch fl (x # fuel) a s))" by simp
    from "10.IH"(2) [OF this 2(3)] 2(2) show ?thesis by simp
  qed
next
  case (12 fl x fuel a s)
  from "12.prems" consider "s' = s"
    | t where "t \<in> set (rmatch fl (x # fuel) a s)" "length (m_rest t) < length (m_rest s)"
        "s' \<in> set (rmatch fl fuel (RLazy a) t)"
    by auto
  then show ?case
  proof cases
    case 1
    then show ?thesis by simp
  next
    case 2
    from 2(1,2) have "t \<in> set (filter (\<lambda>s'. length (m_rest s') < length (m_rest s))
                               (rmatch fl (x # fuel) a s))" by simp
    from "12.IH"(2) [OF this 2(3)] 2(2) show ?thesis by simp
  qed
next
  case (2 fl fuel negated items s)
  then show ?case by (cases "m_rest s") (auto simp: advance_def split: if_splits)
next
  case (3 fl fuel s)
  then show ?case by (cases "m_rest s") (auto simp: advance_def split: if_splits)
qed (auto split: if_splits)

lemma rmatch_fuel:
  "length (m_rest s) \<le> length fuel \<Longrightarrow> length (m_rest s) \<le> length fuel' \<Longrightarrow>
   rmatch fl fuel r s = rmatch fl fuel' r s"
proof (induction fl fuel r s arbitrary: fuel' rule: rmatch.induct)
  case (6 fl fuel a b s)
  have a: "rmatch fl fuel a s = rmatch fl fuel' a s" using "6.prems" by (rule "6.IH"(1))
  have "rmatch fl fuel b t = rmatch fl fuel' b t" if "t \<in> set (rmatch fl fuel a s)" for t
  proof -
    from rmatch_rest [OF that] "6.prems"
    have "length (m_rest t) \<le> length fuel" "length (m_rest t) \<le> length fuel'" by simp_all
    with that show ?thesis by (rule "6.IH"(2))
  qed
  then have m: "map (rmatch fl fuel b) (rmatch fl fuel a s)
             = map (rmatch fl fuel' b) (rmatch fl fuel a s)" by simp
  show ?case by (simp only: rmatch.simps m) (simp only: a)
next
  case (7 fl fuel a b s)
  from "7.IH"(1) [OF "7.prems"] "7.IH"(2) [OF "7.prems"] show ?case by simp
next
  case (8 fl fuel a s)
  from "8.IH" [OF "8.prems"] show ?case by simp
next
  case (9 fl a s)
  then have "m_rest s = []" by simp
  then show ?case by (cases fuel') simp_all
next
  case (10 fl x fuel a s)
  let ?next = "\<lambda>f. filter (\<lambda>s'. length (m_rest s') < length (m_rest s)) (rmatch fl f a s)"
  show ?case
  proof (cases fuel')
    case Nil
    with "10.prems" have "m_rest s = []" by simp
    with Nil show ?thesis by simp
  next
    case (Cons y rest)
    have a: "rmatch fl (x # fuel) a s = rmatch fl (y # rest) a s"
      using "10.prems" unfolding Cons by (rule "10.IH"(1))
    have "rmatch fl fuel (RStar a) t = rmatch fl rest (RStar a) t" if "t \<in> set (?next (x # fuel))" for t
    proof -
      from that "10.prems" Cons
      have "length (m_rest t) \<le> length fuel" "length (m_rest t) \<le> length rest" by simp_all
      with that show ?thesis by (rule "10.IH"(2))
    qed
    then have m: "map (rmatch fl fuel (RStar a)) (?next (x # fuel))
               = map (rmatch fl rest (RStar a)) (?next (x # fuel))" by simp
    show ?thesis unfolding Cons by (simp only: rmatch.simps m) (simp only: a)
  qed
next
  case (11 fl a s)
  then have "m_rest s = []" by simp
  then show ?case by (cases fuel') simp_all
next
  case (12 fl x fuel a s)
  let ?next = "\<lambda>f. filter (\<lambda>s'. length (m_rest s') < length (m_rest s)) (rmatch fl f a s)"
  show ?case
  proof (cases fuel')
    case Nil
    with "12.prems" have "m_rest s = []" by simp
    with Nil show ?thesis by simp
  next
    case (Cons y rest)
    have a: "rmatch fl (x # fuel) a s = rmatch fl (y # rest) a s"
      using "12.prems" unfolding Cons by (rule "12.IH"(1))
    have "rmatch fl fuel (RLazy a) t = rmatch fl rest (RLazy a) t" if "t \<in> set (?next (x # fuel))" for t
    proof -
      from that "12.prems" Cons
      have "length (m_rest t) \<le> length fuel" "length (m_rest t) \<le> length rest" by simp_all
      with that show ?thesis by (rule "12.IH"(2))
    qed
    then have m: "map (rmatch fl fuel (RLazy a)) (?next (x # fuel))
               = map (rmatch fl rest (RLazy a)) (?next (x # fuel))" by simp
    show ?thesis unfolding Cons by (simp only: rmatch.simps m) (simp only: a)
  qed
next
  case (13 fl fuel n a s)
  from "13.IH" [OF "13.prems"] show ?case by simp
qed simp_all

lemmas regex_eval = chr_def lit_def cat_def one_or_more_def no_flags_def quote_def advance_def
  lower_char_def upper_char_def is_word_def is_space_def group_def str_def finditer_def
  re_match_def py_lower_def py_upper_def

lemmas extractor_eval = extract_from_text_def TABLE_NAME_PATTERNS_def COLUMN_PATTERN_def
  create_table_pattern_def table_pattern_def pattern_names_def is_valid_table_name_def
  invalid_names_def parse_columns_def contains_def extract_from_markdown_table_def
  cells_of_def set_add_def sorted_strs_def strip_def users_statement_def Let_def

text \<open>
  C9. On \<^verbatim>\<open>CREATE TABLE users (id INT PRIMARY KEY, name VARCHAR(50))\<close> the lazy group of
  \<^verbatim>\<open>create_table_pattern\<close> ends at the first closing parenthesis, so the body is
  \<^verbatim>\<open>id INT PRIMARY KEY, name VARCHAR(50\<close>; in it \<^verbatim>\<open>COLUMN_PATTERN\<close> matches once, from \<^verbatim>\<open>id\<close>
  to the end, because the class after the type name holds the comma. The table name is
  found, and its entry has the single column \<^verbatim>\<open>id\<close>, whose type is the rest of the body.
\<close>

theorem extract_create_table_one_column:
  "extract_from_text users_statement
   = \<lparr> table_names = [str ''users''],
       column_definitions =
         [\<lparr> cd_table = Some (str ''users''),
            cd_columns = [SqlColumn (str ''id'') (str ''INT PRIMARY KEY, name VARCHAR(50'')
                            True True] \<rparr>] \<rparr>"
  by (simp add: regex_eval extractor_eval)

end
